theory Spec2Isabelle
  imports Main "HOL-Library.AList" "HOL-Library.Sublist" "HOL-Library.Char_ord"
    "HOL-Library.List_Lexorder" "HOL-Library.Product_Lexorder"
begin

section \<open>Path strings\<close>

text \<open>
  The server runs on a POSIX system: \<^verbatim>\<open>os.path\<close> is \<^verbatim>\<open>posixpath\<close> and the separator
  is \<open>/\<close>.  A path is a \<^typ>\<open>string\<close>.  The functions of this section are the string
  functions of the Python library that \<^verbatim>\<open>app.py\<close> calls, written after their
  library source.
\<close>

definition sep :: char where
  "sep = CHR ''/''"

definition STORAGE_ROOT :: string where
  "STORAGE_ROOT = ''./decisions''"

text \<open>\<^verbatim>\<open>str.split('/')\<close>: the pieces between separators, empty pieces included.\<close>

fun split_sep :: "string \<Rightarrow> string list" where
  "split_sep [] = [[]]"
| "split_sep (c # cs) =
     (case split_sep cs of
        [] \<Rightarrow> [[c]]
      | w # ws \<Rightarrow> if c = sep then [] # w # ws else (c # w) # ws)"

text \<open>\<^verbatim>\<open>'/'.join(comps)\<close>.\<close>

fun join_sep :: "string list \<Rightarrow> string" where
  "join_sep [] = []"
| "join_sep [c] = c"
| "join_sep (c # d # cs) = c @ sep # join_sep (d # cs)"

text \<open>
  \<^verbatim>\<open>os.path.join(a, b)\<close> with two arguments: an absolute \<open>b\<close> replaces \<open>a\<close>.
\<close>

definition join :: "string \<Rightarrow> string \<Rightarrow> string" where
  "join a b =
     (if b \<noteq> [] \<and> hd b = sep then b
      else if a = [] \<or> last a = sep then a @ b
      else a @ sep # b)"

text \<open>
  The loop body of \<^verbatim>\<open>os.path.normpath\<close>: \<open>init\<close> is \<^verbatim>\<open>initial_slashes\<close>, \<open>new\<close> is
  \<^verbatim>\<open>new_comps\<close>.
\<close>

definition norm_comp :: "nat \<Rightarrow> string list \<Rightarrow> string \<Rightarrow> string list" where
  "norm_comp init new c =
     (if c = [] \<or> c = ''.'' then new
      else if c \<noteq> ''..'' \<or> (init = 0 \<and> new = []) \<or> (new \<noteq> [] \<and> last new = ''..'')
        then new @ [c]
      else if new \<noteq> [] then butlast new
      else new)"

definition initial_slashes :: "string \<Rightarrow> nat" where
  "initial_slashes p =
     (if take 1 p = [sep] then
        (if take 2 p = [sep, sep] \<and> take 3 p \<noteq> [sep, sep, sep] then 2 else 1)
      else 0)"

definition normpath :: "string \<Rightarrow> string" where
  "normpath p =
     (if p = [] then ''.''
      else
        let init = initial_slashes p;
            comps = foldl (norm_comp init) [] (split_sep p);
            q = replicate init sep @ join_sep comps
        in if q = [] then ''.'' else q)"

text \<open>\<^verbatim>\<open>safe_path\<close> of \<^verbatim>\<open>app.py\<close>: join and normalise, nothing else.\<close>

definition safe_path :: "string \<Rightarrow> string" where
  "safe_path sub = normpath (join STORAGE_ROOT sub)"

text \<open>
  The containment test that \<^verbatim>\<open>safe_path\<close> does not make.  The storage root normalises to
  \<open>decisions\<close> below the working directory, so a normalised path lies within the root
  when it is \<open>decisions\<close> itself or starts with \<open>decisions/\<close>.
\<close>

definition within_root :: "string \<Rightarrow> bool" where
  "within_root t = (t = normpath STORAGE_ROOT \<or> prefix (normpath STORAGE_ROOT @ [sep]) t)"

text \<open>
  \<^verbatim>\<open>os.path.split\<close>: the tail is what follows the last separator; the head is the rest,
  without its trailing separators unless it consists of separators only.
  \<^verbatim>\<open>os.path.dirname\<close> is the head, \<^verbatim>\<open>os.path.basename\<close> the tail.
\<close>

definition path_split :: "string \<Rightarrow> string \<times> string" where
  "path_split p =
     (let tail = rev (takeWhile (\<lambda>c. c \<noteq> sep) (rev p));
          head = rev (dropWhile (\<lambda>c. c \<noteq> sep) (rev p))
      in (if head \<noteq> [] \<and> head \<noteq> replicate (length head) sep
          then rev (dropWhile (\<lambda>c. c = sep) (rev head)) else head, tail))"

definition dirname :: "string \<Rightarrow> string" where
  "dirname p = fst (path_split p)"

definition basename :: "string \<Rightarrow> string" where
  "basename p = snd (path_split p)"

section \<open>Text and integers\<close>

text \<open>
  File contents are byte strings; a text is represented by its UTF-8 encoding, so writing
  a text stores it as it is.  On POSIX a text file is written without newline translation
  and read with universal newlines: \<open>CR LF\<close> and a lone \<open>CR\<close> become \<open>LF\<close>.
  Texts that UTF-8 cannot encode and files that are not UTF-8 are outside the model.
\<close>

definition CR :: char where
  "CR = CHR 0x0D"

definition LF :: char where
  "LF = CHR 0x0A"

fun universal_newlines :: "string \<Rightarrow> string" where
  "universal_newlines [] = []"
| "universal_newlines [c] = (if c = CR then [LF] else [c])"
| "universal_newlines (c # d # ds) =
     (if c = CR \<and> d = LF then LF # universal_newlines ds
      else if c = CR then LF # universal_newlines (d # ds)
      else c # universal_newlines (d # ds))"

text \<open>
  \<^verbatim>\<open>str.strip()\<close>, \<^verbatim>\<open>int(s)\<close> and \<^verbatim>\<open>str(n)\<close> are modelled on ASCII text, where a
  text and its bytes are the same list of characters.  On other text \<^verbatim>\<open>strip\<close> removes
  more white space and \<^verbatim>\<open>int\<close> reads more digits than these definitions do, and a
  conversion of more than 4300 digits is refused by the interpreter (its default for
  \<^verbatim>\<open>sys.set_int_max_str_digits\<close>): statements about a text that the caller chooses
  take it to be \<open>plain_text\<close>, ASCII of at most 4300 characters.
\<close>

definition plain_text :: "string \<Rightarrow> bool" where
  "plain_text s = (list_all (\<lambda>c. (of_char c :: nat) < 128) s \<and> length s \<le> 4300)"

text \<open>
  \<^verbatim>\<open>str.strip()\<close> removes the characters of \<^verbatim>\<open>str.isspace\<close> at both ends, among them
  the separators \<open>0x1C\<close> to \<open>0x1F\<close>.  \<^verbatim>\<open>int\<close> itself skips the white space of C only; a
  literal is an optional sign and decimal digits, with single underscores allowed between
  digits.
\<close>

definition is_space :: "char \<Rightarrow> bool" where
  "is_space c = ((9 \<le> (of_char c :: nat) \<and> (of_char c :: nat) \<le> 13)
     \<or> (28 \<le> (of_char c :: nat) \<and> (of_char c :: nat) \<le> 32))"

definition strip :: "string \<Rightarrow> string" where
  "strip s = rev (dropWhile is_space (rev (dropWhile is_space s)))"

definition is_c_space :: "char \<Rightarrow> bool" where
  "is_c_space c = ((9 \<le> (of_char c :: nat) \<and> (of_char c :: nat) \<le> 13) \<or> (of_char c :: nat) = 32)"

definition is_digit :: "char \<Rightarrow> bool" where
  "is_digit c = (48 \<le> (of_char c :: nat) \<and> (of_char c :: nat) \<le> 57)"

definition digit_val :: "char \<Rightarrow> nat" where
  "digit_val c = of_char c - 48"

definition digit_char :: "nat \<Rightarrow> char" where
  "digit_char d = char_of (48 + d)"

fun int_digits :: "nat \<Rightarrow> string \<Rightarrow> nat option" where
  "int_digits acc [] = Some acc"
| "int_digits acc (c # cs) =
     (if is_digit c then int_digits (10 * acc + digit_val c) cs
      else if c = CHR ''_'' then
        (case cs of
           [] \<Rightarrow> None
         | d # ds \<Rightarrow> if is_digit d then int_digits (10 * acc + digit_val d) ds else None)
      else None)"

definition nat_literal :: "string \<Rightarrow> nat option" where
  "nat_literal s =
     (case s of
        [] \<Rightarrow> None
      | c # cs \<Rightarrow> if is_digit c then int_digits (digit_val c) cs else None)"

datatype exn =
    FileNotFoundError
  | NotADirectoryError
  | IsADirectoryError
  | FileExistsError
  | PermissionError
  | OSError
  | ValueError
  | RecursionError
  | HTTP_NotFound

definition py_int :: "string \<Rightarrow> exn + int" where
  "py_int s0 =
     (case rev (dropWhile is_c_space (rev (dropWhile is_c_space s0))) of
        [] \<Rightarrow> Inl ValueError
      | c # cs \<Rightarrow>
          if c = CHR ''-'' then
            (case nat_literal cs of None \<Rightarrow> Inl ValueError | Some n \<Rightarrow> Inr (- int n))
          else if c = CHR ''+'' then
            (case nat_literal cs of None \<Rightarrow> Inl ValueError | Some n \<Rightarrow> Inr (int n))
          else
            (case nat_literal (c # cs) of None \<Rightarrow> Inl ValueError | Some n \<Rightarrow> Inr (int n)))"

fun str_nat :: "nat \<Rightarrow> string" where
  "str_nat n = (if n < 10 then [digit_char n] else str_nat (n div 10) @ [digit_char (n mod 10)])"

declare str_nat.simps [simp del]

definition py_str :: "int \<Rightarrow> string" where
  "py_str n = (if n < 0 then CHR ''-'' # str_nat (nat (- n)) else str_nat (nat n))"

text \<open>\<^verbatim>\<open>list(range(n))\<close>.\<close>

definition py_range :: "int \<Rightarrow> int list" where
  "py_range n = [0..n - 1]"

text \<open>\<^verbatim>\<open>str.lower()\<close> on ASCII letters; other characters are left as they are.\<close>

definition lower_char :: "char \<Rightarrow> char" where
  "lower_char c =
     (if 65 \<le> (of_char c :: nat) \<and> (of_char c :: nat) \<le> 90 then char_of (of_char c + (32 :: nat))
      else c)"

definition lower :: "string \<Rightarrow> string" where
  "lower s = map lower_char s"

section \<open>The file system\<close>

text \<open>
  A file system is a tree: a file holds its bytes, a directory holds its entries in the
  order in which the system enumerates them.  The state of the process is the tree at
  \<open>/\<close> and the working directory, a list of names from the root.  Symbolic links,
  permissions and time stamps are outside the model, and \<^const>\<open>PermissionError\<close> is never
  raised.  So are the limits of the system on space and on the length of names and paths.
  The recursion limit of the interpreter is in the model where a function calls itself
  for every level of a directory tree, in \<^verbatim>\<open>copytree\<close>, \<^verbatim>\<open>rmtree\<close> and \<^verbatim>\<open>build_tree\<close>.
\<close>

datatype fnode = File string | Dir "(string \<times> fnode) list"

record os_state =
  fs_root :: fnode
  cwd :: "string list"

fun lookup :: "fnode \<Rightarrow> string list \<Rightarrow> fnode option" where
  "lookup n [] = Some n"
| "lookup (File x) (c # cs) = None"
| "lookup (Dir es) (c # cs) = (case map_of es c of None \<Rightarrow> None | Some n \<Rightarrow> lookup n cs)"

text \<open>
  \<open>put t loc n\<close> stores \<open>n\<close> at \<open>loc\<close>, as a new last entry of its directory or in the place
  of the entry of that name; \<open>del t loc\<close> removes the entry at \<open>loc\<close>.  Both leave the tree
  as it is when the directory of \<open>loc\<close> does not exist.
\<close>

fun put :: "fnode \<Rightarrow> string list \<Rightarrow> fnode \<Rightarrow> fnode" where
  "put t [] n = n"
| "put (File x) (c # cs) n = File x"
| "put (Dir es) (c # cs) n =
     (if cs = [] then Dir (AList.update c n es)
      else (case map_of es c of
              None \<Rightarrow> Dir es
            | Some t' \<Rightarrow> Dir (AList.update c (put t' cs n) es)))"

fun del :: "fnode \<Rightarrow> string list \<Rightarrow> fnode" where
  "del t [] = t"
| "del (File x) (c # cs) = File x"
| "del (Dir es) (c # cs) =
     (if cs = [] then Dir (AList.delete c es)
      else (case map_of es c of
              None \<Rightarrow> Dir es
            | Some t' \<Rightarrow> Dir (AList.update c (del t' cs) es)))"

text \<open>
  \<open>isdir_at t loc\<close>: the tree has a directory at \<open>loc\<close>; \<open>is_file_at t loc\<close>: it has a file
  there.  \<open>sub_path d ns\<close> is the path of the names \<open>ns\<close>, one below the other, in the
  directory \<open>d\<close>.
\<close>

definition isdir_at :: "fnode \<Rightarrow> string list \<Rightarrow> bool" where
  "isdir_at t loc = (case lookup t loc of Some (Dir es) \<Rightarrow> True | _ \<Rightarrow> False)"

definition is_file_at :: "fnode \<Rightarrow> string list \<Rightarrow> bool" where
  "is_file_at t loc = (case lookup t loc of Some (File x) \<Rightarrow> True | _ \<Rightarrow> False)"

definition sub_path :: "string \<Rightarrow> string list \<Rightarrow> string" where
  "sub_path d ns = foldl (\<lambda>p n. p @ sep # n) d ns"

text \<open>
  Path resolution.  \<open>walk t cur comps\<close> follows the components from the directory at
  \<open>cur\<close>: each step needs the place reached so far to be a directory; an empty component
  and \<open>.\<close> stay, \<open>..\<close> goes up (the root is its own parent), a name goes down.  The
  place it returns has an existing directory above it and may itself not exist.
\<close>

fun walk :: "fnode \<Rightarrow> string list \<Rightarrow> string list \<Rightarrow> exn + string list" where
  "walk t cur [] = Inr cur"
| "walk t cur (c # cs) =
     (case lookup t cur of
        None \<Rightarrow> Inl FileNotFoundError
      | Some (File x) \<Rightarrow> Inl NotADirectoryError
      | Some (Dir es) \<Rightarrow>
          if c = [] \<or> c = ''.'' then walk t cur cs
          else if c = ''..'' then walk t (butlast cur) cs
          else walk t (cur @ [c]) cs)"

definition namei :: "os_state \<Rightarrow> string \<Rightarrow> exn + string list" where
  "namei st p =
     (if CHR 0x00 \<in> set p then Inl ValueError
      else if p = [] then Inl FileNotFoundError
      else walk (fs_root st) (if hd p = sep then [] else cwd st) (split_sep p))"

text \<open>
  The names a directory can hold: not empty, not \<open>.\<close> or \<open>..\<close>, without separator and
  without the null byte.  In a well-formed tree every directory holds such names, each
  once.
\<close>

definition valid_name :: "string \<Rightarrow> bool" where
  "valid_name nm =
     (nm \<noteq> [] \<and> nm \<noteq> ''.'' \<and> nm \<noteq> ''..'' \<and> sep \<notin> set nm \<and> CHR 0x00 \<notin> set nm)"

fun fs_ok :: "fnode \<Rightarrow> bool" where
  "fs_ok (File c) = True"
| "fs_ok (Dir es) =
     (distinct (map fst es) \<and> list_all valid_name (map fst es) \<and> list_all fs_ok (map snd es))"

text \<open>
  A real system bounds the length of a name, 255 bytes, and of a path, 4096 bytes, and the
  interpreter bounds the recursion of \<^verbatim>\<open>os.makedirs\<close> over the directories that are
  missing.  These bounds are not in the model; a statement that a path is made is a
  statement for a \<open>short_path\<close>, a list of names well within them.
\<close>

definition short_path :: "string list \<Rightarrow> bool" where
  "short_path ns =
     (length ns \<le> 100 \<and> list_all (\<lambda>n. length n \<le> 255) ns \<and> length (join_sep ns) \<le> 4000)"

text \<open>
  The last component of a path, trailing separators aside.  Removing or renaming needs it
  to be a name: not \<open>.\<close>, not \<open>..\<close>, and not the root.
\<close>

definition last_comp :: "string \<Rightarrow> string" where
  "last_comp p = (case filter (\<lambda>c. c \<noteq> []) (split_sep p) of [] \<Rightarrow> [] | c # cs \<Rightarrow> last (c # cs))"

definition normal_last :: "string \<Rightarrow> bool" where
  "normal_last p = (last_comp p \<noteq> [] \<and> last_comp p \<noteq> ''.'' \<and> last_comp p \<noteq> ''..'')"

subsection \<open>System calls\<close>

text \<open>
  A call takes the state and returns its result, an exception or a value, with the state
  it leaves.
\<close>

definition stat :: "os_state \<Rightarrow> string \<Rightarrow> exn + fnode" where
  "stat st p =
     (case namei st p of
        Inl e \<Rightarrow> Inl e
      | Inr loc \<Rightarrow>
          (case lookup (fs_root st) loc of None \<Rightarrow> Inl FileNotFoundError | Some n \<Rightarrow> Inr n))"

text \<open>\<^verbatim>\<open>os.path.exists\<close> and \<^verbatim>\<open>os.path.isdir\<close> answer \<open>False\<close> when \<^verbatim>\<open>os.stat\<close> raises.\<close>

definition path_exists :: "os_state \<Rightarrow> string \<Rightarrow> bool" where
  "path_exists st p = (case stat st p of Inl e \<Rightarrow> False | Inr n \<Rightarrow> True)"

definition isdir :: "os_state \<Rightarrow> string \<Rightarrow> bool" where
  "isdir st p = (case stat st p of Inr (Dir es) \<Rightarrow> True | _ \<Rightarrow> False)"

definition mkdir :: "string \<Rightarrow> os_state \<Rightarrow> (exn + unit) \<times> os_state" where
  "mkdir p st =
     (case namei st p of
        Inl e \<Rightarrow> (Inl e, st)
      | Inr loc \<Rightarrow>
          (case lookup (fs_root st) loc of
             Some n \<Rightarrow> (Inl FileExistsError, st)
           | None \<Rightarrow> (Inr (), st\<lparr>fs_root := put (fs_root st) loc (Dir [])\<rparr>)))"

text \<open>
  \<^verbatim>\<open>with open(p, "w") as f: f.write(c)\<close> creates or truncates the file and writes the
  bytes; \<^verbatim>\<open>with open(p) as f: f.read()\<close> returns the text with universal newlines;
  \<open>read_bytes\<close> is a binary read.
\<close>

definition write_file :: "string \<Rightarrow> string \<Rightarrow> os_state \<Rightarrow> (exn + unit) \<times> os_state" where
  "write_file p c st =
     (case namei st p of
        Inl e \<Rightarrow> (Inl e, st)
      | Inr loc \<Rightarrow>
          (case lookup (fs_root st) loc of
             Some (Dir es) \<Rightarrow> (Inl IsADirectoryError, st)
           | _ \<Rightarrow> (Inr (), st\<lparr>fs_root := put (fs_root st) loc (File c)\<rparr>)))"

definition read_bytes :: "os_state \<Rightarrow> string \<Rightarrow> exn + string" where
  "read_bytes st p =
     (case stat st p of
        Inl e \<Rightarrow> Inl e
      | Inr (Dir es) \<Rightarrow> Inl IsADirectoryError
      | Inr (File c) \<Rightarrow> Inr c)"

definition read_file :: "os_state \<Rightarrow> string \<Rightarrow> exn + string" where
  "read_file st p = (case read_bytes st p of Inl e \<Rightarrow> Inl e | Inr c \<Rightarrow> Inr (universal_newlines c))"

text \<open>\<^verbatim>\<open>os.listdir\<close> gives the names, \<^verbatim>\<open>os.scandir\<close> the entries.\<close>

definition scandir :: "os_state \<Rightarrow> string \<Rightarrow> exn + (string \<times> fnode) list" where
  "scandir st p =
     (case stat st p of
        Inl e \<Rightarrow> Inl e
      | Inr (File c) \<Rightarrow> Inl NotADirectoryError
      | Inr (Dir es) \<Rightarrow> Inr es)"

definition listdir :: "os_state \<Rightarrow> string \<Rightarrow> exn + string list" where
  "listdir st p = (case scandir st p of Inl e \<Rightarrow> Inl e | Inr es \<Rightarrow> Inr (map fst es))"

text \<open>\<^verbatim>\<open>os.remove\<close> unlinks a file.\<close>

definition remove :: "string \<Rightarrow> os_state \<Rightarrow> (exn + unit) \<times> os_state" where
  "remove p st =
     (case namei st p of
        Inl e \<Rightarrow> (Inl e, st)
      | Inr loc \<Rightarrow>
          (case lookup (fs_root st) loc of
             None \<Rightarrow> (Inl FileNotFoundError, st)
           | Some (Dir es) \<Rightarrow> (Inl IsADirectoryError, st)
           | Some (File c) \<Rightarrow> (Inr (), st\<lparr>fs_root := del (fs_root st) loc\<rparr>)))"

text \<open>
  \<^verbatim>\<open>shutil.rmtree\<close> empties the directory, entry by entry in their order, a
  subdirectory by a nested call of its function \<^verbatim>\<open>_rmtree_safe_fd\<close>, and then removes
  it with \<^verbatim>\<open>os.rmdir\<close>, which refuses a path whose last component is not a name: the
  contents are gone and the call raises.  \<open>levels\<close> is the number of nested calls that the
  recursion limit of the interpreter admits; the removal stops at the first call that is
  refused, and what was not removed stays.  \<open>remove_entries l es\<close> is the removal of the
  entries \<open>es\<close> of a directory when \<open>l\<close> nested calls are admitted: whether it was
  completed, and the entries that are left.
\<close>

fun remove_entries :: "nat \<Rightarrow> (string \<times> fnode) list \<Rightarrow> bool \<times> (string \<times> fnode) list" where
  "remove_entries l [] = (True, [])"
| "remove_entries l ((nm, File c) # es) = remove_entries l es"
| "remove_entries 0 ((nm, Dir ds) # es) = (False, (nm, Dir ds) # es)"
| "remove_entries (Suc l) ((nm, Dir ds) # es) =
     (case remove_entries l ds of
        (False, ds') \<Rightarrow> (False, (nm, Dir ds') # es)
      | (True, ds') \<Rightarrow> remove_entries (Suc l) es)"

definition rmtree :: "nat \<Rightarrow> string \<Rightarrow> os_state \<Rightarrow> (exn + unit) \<times> os_state" where
  "rmtree levels p st =
     (case namei st p of
        Inl e \<Rightarrow> (Inl e, st)
      | Inr loc \<Rightarrow>
          (case lookup (fs_root st) loc of
             None \<Rightarrow> (Inl FileNotFoundError, st)
           | Some (File c) \<Rightarrow> (Inl NotADirectoryError, st)
           | Some (Dir es) \<Rightarrow>
               if levels = 0 then (Inl RecursionError, st)
               else
                 (case remove_entries (levels - 1) es of
                    (False, es') \<Rightarrow>
                      (Inl RecursionError, st\<lparr>fs_root := put (fs_root st) loc (Dir es')\<rparr>)
                  | (True, es') \<Rightarrow>
                      if normal_last p then (Inr (), st\<lparr>fs_root := del (fs_root st) loc\<rparr>)
                      else (Inl OSError, st\<lparr>fs_root := put (fs_root st) loc (Dir [])\<rparr>))))"

text \<open>
  \<^verbatim>\<open>os.rename\<close>, in the order in which Linux checks: the directories of both paths, the
  last components (both must be names), the source, a rename onto itself, a directory
  moved below itself or onto one of its ancestors, then the kinds of source and target.
  A target that exists is replaced, unless it is a directory that is not empty.
\<close>

definition rename :: "string \<Rightarrow> string \<Rightarrow> os_state \<Rightarrow> (exn + unit) \<times> os_state" where
  "rename src dst st =
     (case namei st src of
        Inl e \<Rightarrow> (Inl e, st)
      | Inr sl \<Rightarrow>
     (case namei st dst of
        Inl e \<Rightarrow> (Inl e, st)
      | Inr dl \<Rightarrow>
          if \<not> (normal_last src \<and> normal_last dst) then (Inl OSError, st)
          else
            (case lookup (fs_root st) sl of
               None \<Rightarrow> (Inl FileNotFoundError, st)
             | Some sn \<Rightarrow>
                 if sl = dl then (Inr (), st)
                 else if prefix sl dl \<or> prefix dl sl then (Inl OSError, st)
                 else
                   (case (sn, lookup (fs_root st) dl) of
                      (File c, Some (Dir es)) \<Rightarrow> (Inl IsADirectoryError, st)
                    | (Dir es, Some (File c)) \<Rightarrow> (Inl NotADirectoryError, st)
                    | (Dir es, Some (Dir (e # es'))) \<Rightarrow> (Inl OSError, st)
                    | _ \<Rightarrow> (Inr (), st\<lparr>fs_root := put (del (fs_root st) sl) dl sn\<rparr>)))))"

subsection \<open>Library functions over the system calls\<close>

text \<open>
  \<^verbatim>\<open>os.makedirs(name, exist_ok=...)\<close>, after its library source: the directories above
  \<open>name\<close> are made first when the one right above does not exist; then \<open>name\<close> is made,
  and the error of \<^verbatim>\<open>mkdir\<close> is swallowed when \<open>exist_ok\<close> holds and \<open>name\<close> is a
  directory.  A \<^verbatim>\<open>ValueError\<close> is no \<^verbatim>\<open>OSError\<close> and is never swallowed.
\<close>

definition makedirs_split :: "string \<Rightarrow> string \<times> string" where
  "makedirs_split name =
     (if snd (path_split name) = [] then path_split (fst (path_split name)) else path_split name)"

definition makedirs_leaf :: "string \<Rightarrow> bool \<Rightarrow> os_state \<Rightarrow> (exn + unit) \<times> os_state" where
  "makedirs_leaf name exist_ok st =
     (case mkdir name st of
        (Inl e, st') \<Rightarrow>
          if e = ValueError \<or> \<not> exist_ok \<or> \<not> isdir st' name then (Inl e, st') else (Inr (), st')
      | (Inr u, st') \<Rightarrow> (Inr u, st'))"

function makedirs :: "string \<Rightarrow> bool \<Rightarrow> os_state \<Rightarrow> (exn + unit) \<times> os_state" where
  "makedirs name exist_ok st =
     (if fst (makedirs_split name) \<noteq> [] \<and> snd (makedirs_split name) \<noteq> []
         \<and> \<not> path_exists st (fst (makedirs_split name))
      then
        (case makedirs (fst (makedirs_split name)) exist_ok st of
           (Inl e, st') \<Rightarrow>
             if e \<noteq> FileExistsError then (Inl e, st')
             else if snd (makedirs_split name) = ''.'' then (Inr (), st')
             else makedirs_leaf name exist_ok st'
         | (Inr u, st') \<Rightarrow>
             if snd (makedirs_split name) = ''.'' then (Inr (), st')
             else makedirs_leaf name exist_ok st')
      else makedirs_leaf name exist_ok st)"
  by pat_completeness auto

lemma length_path_split_fst: "length (fst (path_split p)) \<le> length p"
proof -
  have a: "length (dropWhile P xs) \<le> length xs" for P and xs :: string
    by (induction xs) auto
  have "length (rev (dropWhile (\<lambda>c. c = sep) (rev (rev (dropWhile (\<lambda>c. c \<noteq> sep) (rev p))))))
      \<le> length (dropWhile (\<lambda>c. c \<noteq> sep) (rev p))"
    using a [of "\<lambda>c. c = sep" "dropWhile (\<lambda>c. c \<noteq> sep) (rev p)"] by simp
  moreover have "length (dropWhile (\<lambda>c. c \<noteq> sep) (rev p)) \<le> length p"
    using a [of "\<lambda>c. c \<noteq> sep" "rev p"] by simp
  ultimately show ?thesis
    by (simp add: path_split_def Let_def)
qed

lemma length_path_split_less:
  assumes "snd (path_split p) \<noteq> []"
  shows "length (fst (path_split p)) < length p"
proof -
  have a: "length (dropWhile P xs) \<le> length xs" for P and xs :: string
    by (induction xs) auto
  have t: "takeWhile (\<lambda>c. c \<noteq> sep) (rev p) \<noteq> []"
    using assms by (simp add: path_split_def Let_def)
  have "length (takeWhile (\<lambda>c. c \<noteq> sep) (rev p)) + length (dropWhile (\<lambda>c. c \<noteq> sep) (rev p))
      = length p"
    using length_append [of "takeWhile (\<lambda>c. c \<noteq> sep) (rev p)" "dropWhile (\<lambda>c. c \<noteq> sep) (rev p)"]
    by simp
  with t have d: "length (dropWhile (\<lambda>c. c \<noteq> sep) (rev p)) < length p"
    by (cases "takeWhile (\<lambda>c. c \<noteq> sep) (rev p)") auto
  have "length (rev (dropWhile (\<lambda>c. c = sep) (rev (rev (dropWhile (\<lambda>c. c \<noteq> sep) (rev p))))))
      \<le> length (dropWhile (\<lambda>c. c \<noteq> sep) (rev p))"
    using a [of "\<lambda>c. c = sep" "dropWhile (\<lambda>c. c \<noteq> sep) (rev p)"] by simp
  with d show ?thesis
    by (simp add: path_split_def Let_def)
qed

lemma length_makedirs_split:
  assumes "snd (makedirs_split name) \<noteq> []"
  shows "length (fst (makedirs_split name)) < length name"
proof (cases "snd (path_split name) = []")
  case True
  then have "makedirs_split name = path_split (fst (path_split name))"
    by (simp add: makedirs_split_def)
  with assms have "length (fst (makedirs_split name)) < length (fst (path_split name))"
    using length_path_split_less [of "fst (path_split name)"] by simp
  then show ?thesis
    using length_path_split_fst [of name] by simp
next
  case False
  then show ?thesis
    using length_path_split_less [of name] by (simp add: makedirs_split_def)
qed

termination makedirs
  by (relation "measure (\<lambda>(name, exist_ok, st). length name)")
    (auto simp: length_makedirs_split)

declare makedirs.simps [simp del]

text \<open>
  \<^verbatim>\<open>shutil.copy2(src, dst)\<close> copies the bytes of a file; into \<open>dst\<close> when that is a
  directory.  Copying a file onto itself raises.
\<close>

definition copy2 :: "string \<Rightarrow> string \<Rightarrow> os_state \<Rightarrow> (exn + unit) \<times> os_state" where
  "copy2 src dst0 st =
     (let dst = (if isdir st dst0 then join dst0 (basename src) else dst0) in
      if path_exists st src \<and> path_exists st dst \<and> namei st src = namei st dst
      then (Inl OSError, st)
      else (case read_bytes st src of
              Inl e \<Rightarrow> (Inl e, st)
            | Inr c \<Rightarrow> write_file dst c st))"

text \<open>
  \<^verbatim>\<open>shutil.copytree(src, dst)\<close> reads the entries of \<open>src\<close>, makes \<open>dst\<close> with
  \<^verbatim>\<open>os.makedirs(dst)\<close>, which raises when \<open>dst\<close> exists, and copies the entries in their
  order: a directory by a call of \<^verbatim>\<open>copytree\<close> itself, a file by \<^verbatim>\<open>copy2\<close>.  Every
  level of directories is a nested call, and the interpreter refuses a call beyond its
  recursion limit with \<^const>\<open>RecursionError\<close>, which nothing on the way catches.  The
  argument \<open>levels\<close> is the number of nested calls of \<^verbatim>\<open>copytree\<close> that the limit still
  admits where the call is made: the frames of the caller and those that a level needs for
  its own calls are counted off.  The copy stops at the first call that is refused, and
  what was copied before stays.

  \<open>copy_entries l es\<close> is the copy of the entries \<open>es\<close> of a directory when \<open>l\<close> nested calls
  are admitted: whether it was completed, and the entries made.  It is a recursion over
  the tree that was read; a destination below the source is not modelled apart from that.
  \<open>node_depth\<close> counts the levels of directories of a tree.
\<close>

fun copy_entries :: "nat \<Rightarrow> (string \<times> fnode) list \<Rightarrow> bool \<times> (string \<times> fnode) list" where
  "copy_entries l [] = (True, [])"
| "copy_entries l ((nm, File c) # es) =
     (case copy_entries l es of (ok, es') \<Rightarrow> (ok, (nm, File c) # es'))"
| "copy_entries 0 ((nm, Dir ds) # es) = (False, [])"
| "copy_entries (Suc l) ((nm, Dir ds) # es) =
     (case copy_entries l ds of
        (False, ds') \<Rightarrow> (False, [(nm, Dir ds')])
      | (True, ds') \<Rightarrow>
          (case copy_entries (Suc l) es of (ok, es') \<Rightarrow> (ok, (nm, Dir ds') # es')))"

fun node_depth :: "fnode \<Rightarrow> nat" where
  "node_depth (File c) = 0"
| "node_depth (Dir es) = Suc (foldr max (map (\<lambda>(nm, n). node_depth n) es) 0)"

definition copytree :: "nat \<Rightarrow> string \<Rightarrow> string \<Rightarrow> os_state \<Rightarrow> (exn + unit) \<times> os_state" where
  "copytree levels src dst st =
     (if levels = 0 then (Inl RecursionError, st)
      else
        (case scandir st src of
           Inl e \<Rightarrow> (Inl e, st)
         | Inr es \<Rightarrow>
             (case makedirs dst False st of
                (Inl e, st') \<Rightarrow> (Inl e, st')
              | (Inr u, st') \<Rightarrow>
                  (case namei st' dst of
                     Inl e \<Rightarrow> (Inl e, st')
                   | Inr loc \<Rightarrow>
                       (case copy_entries (levels - 1) es of
                          (ok, es') \<Rightarrow>
                            (if ok then Inr () else Inl RecursionError,
                             st'\<lparr>fs_root := put (fs_root st') loc (Dir es')\<rparr>))))))"

section \<open>The server\<close>

text \<open>
  The functions of \<^verbatim>\<open>app.py\<close>.  A request is modelled after its JSON body or query has been
  decoded into strings; a handler returns an exception or its response, with the state it
  leaves.  \<^verbatim>\<open>abort(404)\<close> is the exception \<^const>\<open>HTTP_NotFound\<close>; any other exception
  leaves the handler uncaught.
\<close>

definition return_ok :: "'a \<Rightarrow> os_state \<Rightarrow> (exn + 'a) \<times> os_state" where
  "return_ok v st = (Inr v, st)"

definition and_then ::
  "(os_state \<Rightarrow> (exn + 'a) \<times> os_state) \<Rightarrow> ('a \<Rightarrow> os_state \<Rightarrow> (exn + 'b) \<times> os_state)
    \<Rightarrow> os_state \<Rightarrow> (exn + 'b) \<times> os_state" where
  "and_then m f st = (case m st of (Inl e, st') \<Rightarrow> (Inl e, st') | (Inr v, st') \<Rightarrow> f v st')"

definition head_path :: string where
  "head_path = join STORAGE_ROOT ''HEAD''"

text \<open>The module's start: \<^verbatim>\<open>STORAGE_ROOT/0\<close> and \<^verbatim>\<open>HEAD\<close> exist afterwards.\<close>

definition startup :: "os_state \<Rightarrow> (exn + unit) \<times> os_state" where
  "startup =
     and_then (makedirs (STORAGE_ROOT @ ''/0'') True)
       (\<lambda>u st. if \<not> path_exists st head_path then write_file head_path ''0'' st
                else (Inr (), st))"

definition read_head :: "os_state \<Rightarrow> exn + int" where
  "read_head st = (case read_file st head_path of Inl e \<Rightarrow> Inl e | Inr c \<Rightarrow> py_int (strip c))"

definition write_head :: "int \<Rightarrow> os_state \<Rightarrow> (exn + unit) \<times> os_state" where
  "write_head n = write_file head_path (py_str n)"

definition current_rev :: "os_state \<Rightarrow> exn + int" where
  "current_rev st = read_head st"

definition bump_rev :: "os_state \<Rightarrow> (exn + int) \<times> os_state" where
  "bump_rev =
     and_then (\<lambda>st. (current_rev st, st))
       (\<lambda>h. and_then (makedirs (join STORAGE_ROOT (py_str (h + 1))) False)
         (\<lambda>u. and_then (write_head (h + 1))
           (\<lambda>u. return_ok (h + 1))))"

subsection \<open>The file service\<close>

text \<open>
  A node of a listing.  The modification time of an entry is not modelled; the size of a
  file is the number of its bytes, and a file has no \<open>children\<close>.
\<close>

datatype node =
  Node (name: string) (path: string) (isDirectory: bool) (size_field: "nat option")
    (children: "node list option")

definition sort_key_of :: "node \<Rightarrow> bool \<times> string" where
  "sort_key_of n = (\<not> isDirectory n, lower (name n))"

text \<open>
  \<open>map_result f xs\<close> is a loop that applies \<open>f\<close> to the elements in turn and collects the
  results; the first exception ends it.
\<close>

fun map_result :: "('a \<Rightarrow> exn + 'b) \<Rightarrow> 'a list \<Rightarrow> exn + 'b list" where
  "map_result f [] = Inr []"
| "map_result f (x # xs) =
     (case f x of
        Inl e \<Rightarrow> Inl e
      | Inr y \<Rightarrow> (case map_result f xs of Inl e \<Rightarrow> Inl e | Inr ys \<Rightarrow> Inr (y # ys)))"

text \<open>
  \<^verbatim>\<open>build_tree\<close> calls itself for every subdirectory, with \<open>full_path\<close>, the path of the
  entry, and \<open>node_path\<close>.  As for \<^verbatim>\<open>copytree\<close>, \<open>levels\<close> is the number of nested calls that
  the recursion limit of the interpreter admits; a call beyond it raises
  \<^const>\<open>RecursionError\<close>, which \<^verbatim>\<open>except PermissionError\<close> does not catch.
  \<^verbatim>\<open>str.lower\<close> is modelled on ASCII names (\<open>plain_names\<close>).
\<close>

fun build_tree :: "nat \<Rightarrow> os_state \<Rightarrow> string \<Rightarrow> string \<Rightarrow> exn + node list" where
  "build_tree 0 st root_path rel_path = Inl RecursionError"
| "build_tree (Suc levels) st root_path rel_path =
     (case scandir st root_path of
        Inl e \<Rightarrow> if e = PermissionError then Inr [] else Inl e
      | Inr es \<Rightarrow>
          (case map_result
                  (\<lambda>(nm, n).
                     case n of
                       File c \<Rightarrow> Inr (Node nm (join rel_path nm) False (Some (length c)) None)
                     | Dir es' \<Rightarrow>
                         (case build_tree levels st (join root_path nm) (join rel_path nm) of
                            Inl e \<Rightarrow> Inl e
                          | Inr ch \<Rightarrow> Inr (Node nm (join rel_path nm) True None (Some ch))))
                  es of
             Inl e \<Rightarrow> Inl e
           | Inr nodes \<Rightarrow> Inr (sort_key sort_key_of nodes)))"

definition fs_list :: "nat \<Rightarrow> string \<Rightarrow> os_state \<Rightarrow> (exn + node list) \<times> os_state" where
  "fs_list levels sub st =
     (if \<not> path_exists st (safe_path sub) then (Inl HTTP_NotFound, st)
      else (build_tree levels st (safe_path sub) sub, st))"

fun plain_names :: "fnode \<Rightarrow> bool" where
  "plain_names (File c) = True"
| "plain_names (Dir es) =
     list_all (\<lambda>(nm, n). list_all (\<lambda>c. (of_char c :: nat) < 128) nm \<and> plain_names n) es"

text \<open>
  The order that a listing is to have, in the words of the specification: a directory comes
  before a file, and of two directories, or of two files, the one whose name is smaller
  without regard to case comes first.  A node is ordered when the list of its children is, at
  every level below it.
\<close>

definition comes_before :: "node \<Rightarrow> node \<Rightarrow> bool" where
  "comes_before a b =
     (if isDirectory a = isDirectory b then lower (name a) \<le> lower (name b) else isDirectory a)"

fun ordered_node :: "node \<Rightarrow> bool" where
  "ordered_node (Node nm p d s cs) =
     (case cs of
        None \<Rightarrow> True
      | Some ns \<Rightarrow> sorted_wrt comes_before ns \<and> list_all ordered_node ns)"

definition ordered_listing :: "node list \<Rightarrow> bool" where
  "ordered_listing ns = (sorted_wrt comes_before ns \<and> list_all ordered_node ns)"

definition fs_save :: "string \<Rightarrow> string \<Rightarrow> os_state \<Rightarrow> (exn + string \<times> nat) \<times> os_state" where
  "fs_save p content =
     and_then (makedirs (dirname (safe_path p)) True)
       (\<lambda>u. and_then (write_file (safe_path p) content)
         (\<lambda>u. return_ok ([], 201)))"

definition fs_read :: "string \<Rightarrow> os_state \<Rightarrow> (exn + string \<times> nat) \<times> os_state" where
  "fs_read p st =
     (if \<not> path_exists st (safe_path p) then (Inl HTTP_NotFound, st)
      else (case read_file st (safe_path p) of
              Inl e \<Rightarrow> (Inl e, st)
            | Inr content \<Rightarrow> (Inr (content, 200), st)))"

definition fs_write :: "string \<Rightarrow> string \<Rightarrow> os_state \<Rightarrow> (exn + string \<times> nat) \<times> os_state" where
  "fs_write p content =
     and_then (makedirs (dirname (safe_path p)) True)
       (\<lambda>u. and_then (write_file (safe_path p) content)
         (\<lambda>u. return_ok ([], 201)))"

definition fs_rename :: "string \<Rightarrow> string \<Rightarrow> os_state \<Rightarrow> (exn + string \<times> nat) \<times> os_state" where
  "fs_rename from to =
     and_then (makedirs (dirname (safe_path to)) True)
       (\<lambda>u. and_then (rename (safe_path from) (safe_path to))
         (\<lambda>u. return_ok ([], 204)))"

definition fs_delete :: "nat \<Rightarrow> string \<Rightarrow> os_state \<Rightarrow> (exn + string \<times> nat) \<times> os_state" where
  "fs_delete levels p =
     and_then (\<lambda>st. if isdir st (safe_path p) then rmtree levels (safe_path p) st
                     else remove (safe_path p) st)
       (\<lambda>u. return_ok ([], 204))"

text \<open>
  The loop of \<^verbatim>\<open>fs_snapshot\<close> over the names that \<^verbatim>\<open>os.listdir(src)\<close> returned, and the
  handler.  Its argument \<open>levels\<close> is the number of nested calls of \<^verbatim>\<open>copytree\<close> that the
  recursion limit of the interpreter admits inside the handler: with the limit of 1000
  frames and two frames to a level, fewer than 500.
\<close>

fun snapshot_loop ::
  "nat \<Rightarrow> string \<Rightarrow> string \<Rightarrow> string list \<Rightarrow> os_state \<Rightarrow> (exn + unit) \<times> os_state" where
  "snapshot_loop levels src dst [] st = (Inr (), st)"
| "snapshot_loop levels src dst (nm # names) st =
     (case (if isdir st (join src nm) then copytree levels (join src nm) (join dst nm) st
            else copy2 (join src nm) (join dst nm) st) of
        (Inl e, st') \<Rightarrow> (Inl e, st')
      | (Inr u, st') \<Rightarrow> snapshot_loop levels src dst names st')"

definition fs_snapshot :: "nat \<Rightarrow> os_state \<Rightarrow> (exn + int) \<times> os_state" where
  "fs_snapshot levels =
     and_then (\<lambda>st. (current_rev st, st))
       (\<lambda>h. and_then bump_rev
         (\<lambda>new_rev. and_then (makedirs (safe_path (py_str new_rev)) True)
           (\<lambda>u. and_then (\<lambda>st. (listdir st (safe_path (py_str h)), st))
             (\<lambda>names. and_then
                (snapshot_loop levels (safe_path (py_str h)) (safe_path (py_str new_rev)) names)
               (\<lambda>u. return_ok new_rev)))))"

subsection \<open>Revision control\<close>

record revisions =
  latest :: int
  list :: "int list"

definition rev_list :: "os_state \<Rightarrow> (exn + revisions) \<times> os_state" where
  "rev_list st =
     (case current_rev st of
        Inl e \<Rightarrow> (Inl e, st)
      | Inr head \<Rightarrow> (Inr \<lparr>latest = head, list = py_range (head + 1)\<rparr>, st))"

subsection \<open>A fresh store\<close>

text \<open>
  A host whose working directory \<open>/srv\<close> is empty, and the store that the start of the
  server makes there: revision \<open>0\<close>, empty, and \<open>HEAD\<close> holding \<open>0\<close>.
\<close>

definition empty_host :: os_state where
  "empty_host = \<lparr>fs_root = Dir [(''srv'', Dir [])], cwd = [''srv'']\<rparr>"

definition fresh_store :: os_state where
  "fresh_store = snd (startup empty_host)"

subsection \<open>The layout of the store\<close>

text \<open>
  The storage root is the directory \<open>decisions\<close> of the working directory; \<open>root_dir\<close> is
  its normalised path, \<open>root_loc\<close> its place in the tree.  A revision exists when the
  storage root has an entry whose name is the decimal text of an integer, as \<^verbatim>\<open>str\<close> writes
  it.
\<close>

definition root_dir :: string where
  "root_dir = normpath STORAGE_ROOT"

definition root_loc :: "os_state \<Rightarrow> string list" where
  "root_loc st = cwd st @ [''decisions'']"

definition rev_of_name :: "string \<Rightarrow> int option" where
  "rev_of_name nm =
     (case py_int nm of Inl e \<Rightarrow> None | Inr n \<Rightarrow> if py_str n = nm then Some n else None)"

definition existing_revisions :: "os_state \<Rightarrow> int list" where
  "existing_revisions st =
     (case lookup (fs_root st) (root_loc st) of
        Some (Dir es) \<Rightarrow> List.map_filter rev_of_name (map fst es)
      | _ \<Rightarrow> [])"

text \<open>
  A well-formed store: \<open>HEAD\<close> holds a number \<open>h\<close> that is not negative, the revisions
  that exist are those from \<open>0\<close> to \<open>h\<close>, and each of them is a directory.
\<close>

definition is_dir_entry :: "(string \<times> fnode) list \<Rightarrow> string \<Rightarrow> bool" where
  "is_dir_entry es nm = (case map_of es nm of Some (Dir es') \<Rightarrow> True | _ \<Rightarrow> False)"

definition store_ok :: "os_state \<Rightarrow> bool" where
  "store_ok st =
     (case lookup (fs_root st) (root_loc st) of
        Some (Dir es) \<Rightarrow>
          (case read_head st of
             Inl e \<Rightarrow> False
           | Inr h \<Rightarrow>
               0 \<le> h \<and> set (existing_revisions st) = {0..h}
               \<and> list_all (\<lambda>n. is_dir_entry es (py_str n)) [0..h])
      | _ \<Rightarrow> False)"

text \<open>
  A caller that allocates \<open>k\<close> revisions, one call of \<^verbatim>\<open>bump_rev\<close> after the other, and
  collects the numbers returned; it stops at the first exception.
\<close>

fun allocate_many :: "nat \<Rightarrow> os_state \<Rightarrow> (exn + int list) \<times> os_state" where
  "allocate_many 0 st = (Inr [], st)"
| "allocate_many (Suc k) st =
     (case bump_rev st of
        (Inl e, st') \<Rightarrow> (Inl e, st')
      | (Inr n, st') \<Rightarrow>
          (case allocate_many k st' of
             (Inl e, st'') \<Rightarrow> (Inl e, st'')
           | (Inr ns, st'') \<Rightarrow> (Inr (n # ns), st'')))"

section \<open>Facts about the tree\<close>

lemma isdir_at_iff: "isdir_at t loc \<longleftrightarrow> (\<exists>es. lookup t loc = Some (Dir es))"
  by (auto simp: isdir_at_def split: option.splits fnode.splits)

lemma lookup_append:
  "lookup t (a @ b) = (case lookup t a of None \<Rightarrow> None | Some x \<Rightarrow> lookup x b)"
proof (induction a arbitrary: t)
  case Nil
  show ?case by simp
next
  case (Cons c a)
  show ?case
    by (cases t) (auto simp: Cons.IH split: option.splits)
qed

lemma lookup_prefix_dir:
  "lookup t (p @ c # r) = Some x \<Longrightarrow> \<exists>es. lookup t p = Some (Dir es)"
proof (induction p arbitrary: t)
  case Nil
  then show ?case by (cases t) auto
next
  case (Cons a p)
  then show ?case
    by (cases t) (auto split: option.splits)
qed

lemma lookup_put_child:
  "lookup t d = Some (Dir es) \<Longrightarrow> lookup (put t (d @ [c]) n) d = Some (Dir (AList.update c n es))"
proof (induction d arbitrary: t)
  case Nil
  then show ?case by simp
next
  case (Cons a d)
  then show ?case
    by (cases t) (auto simp: update_conv' split: option.splits)
qed

lemma lookup_put_same:
  assumes "loc \<noteq> []" and "isdir_at t (butlast loc)"
  shows "lookup (put t loc n) loc = Some n"
proof -
  obtain es where es: "lookup t (butlast loc) = Some (Dir es)"
    using assms(2) by (auto simp: isdir_at_iff)
  have "lookup (put t (butlast loc @ [last loc]) n) (butlast loc @ [last loc]) = Some n"
    by (simp add: lookup_append lookup_put_child [OF es] update_conv')
  with assms(1) show ?thesis by simp
qed

lemma lookup_put_frame:
  "\<not> prefix loc q \<Longrightarrow> \<not> prefix q loc \<Longrightarrow> lookup (put t loc n) q = lookup t q"
proof (induction loc arbitrary: t q)
  case Nil
  then show ?case by simp
next
  case (Cons c cs)
  then obtain a as where q: "q = a # as" by (cases q) auto
  show ?case
  proof (cases t)
    case (File x)
    then show ?thesis by simp
  next
    case (Dir es)
    show ?thesis
    proof (cases "c = a")
      case False
      then show ?thesis
        using Dir q by (auto simp: update_conv' split: option.splits)
    next
      case True
      with Cons.prems q have np: "\<not> prefix cs as" "\<not> prefix as cs" by auto
      then have "cs \<noteq> []" by auto
      with Cons.IH [OF np] show ?thesis
        using Dir q True by (auto simp: update_conv' split: option.splits)
    qed
  qed
qed

lemma dir_put_dir:
  "lookup t q = Some (Dir es) \<Longrightarrow> \<not> isdir_at t loc \<Longrightarrow> \<exists>es'. lookup (put t loc n) q = Some (Dir es')"
proof (induction q arbitrary: t loc es)
  case Nil
  then show ?case
    by (cases loc) (auto simp: isdir_at_def split: option.splits)
next
  case (Cons a q)
  then obtain ts where t: "t = Dir ts" by (cases t) auto
  with Cons.prems obtain t' where t': "map_of ts a = Some t'" "lookup t' q = Some (Dir es)"
    by (auto split: option.splits)
  show ?case
  proof (cases loc)
    case Nil
    with Cons.prems t show ?thesis by (simp add: isdir_at_def)
  next
    case (Cons c cs)
    show ?thesis
    proof (cases "c = a")
      case False
      then show ?thesis
        using t t' Cons by (auto simp: update_conv' split: option.splits)
    next
      case True
      show ?thesis
      proof (cases "cs = []")
        case True
        with \<open>c = a\<close> Cons Cons.prems t t' have "\<not> isdir_at t [a]" by simp
        with t t' have nd: "\<And>x. t' \<noteq> Dir x" by (auto simp: isdir_at_def)
        with t'(2) show ?thesis by (cases q; cases t') auto
      next
        case False
        have "\<not> isdir_at t' cs"
          using Cons.prems(2) t t' Cons \<open>c = a\<close> by (simp add: isdir_at_def)
        from Cons.IH [OF t'(2) this] obtain es' where "lookup (put t' cs n) q = Some (Dir es')"
          by blast
        then show ?thesis
          using t t' Cons \<open>c = a\<close> False by (simp add: update_conv')
      qed
    qed
  qed
qed

lemma lookup_del_below: "loc \<noteq> [] \<Longrightarrow> lookup (del t loc) (loc @ r) = None"
proof (induction loc arbitrary: t)
  case Nil
  then show ?case by simp
next
  case (Cons c cs)
  show ?case
  proof (cases t)
    case (File x)
    then show ?thesis by simp
  next
    case (Dir es)
    show ?thesis
    proof (cases "cs = []")
      case True
      then show ?thesis using Dir by (simp add: delete_conv')
    next
      case False
      then show ?thesis
        using Dir Cons.IH [of "the (map_of es c)"]
        by (auto simp: update_conv' split: option.splits)
    qed
  qed
qed

lemma lookup_del_frame:
  "\<not> prefix loc q \<Longrightarrow> \<not> prefix q loc \<Longrightarrow> lookup (del t loc) q = lookup t q"
proof (induction loc arbitrary: t q)
  case Nil
  then show ?case by simp
next
  case (Cons c cs)
  then obtain a as where q: "q = a # as" by (cases q) auto
  show ?case
  proof (cases t)
    case (File x)
    then show ?thesis by simp
  next
    case (Dir es)
    show ?thesis
    proof (cases "c = a")
      case False
      then show ?thesis
        using Dir q by (auto simp: update_conv' delete_conv' split: option.splits)
    next
      case True
      with Cons.prems q have np: "\<not> prefix cs as" "\<not> prefix as cs" by auto
      then have "cs \<noteq> []" by auto
      with Cons.IH [OF np] show ?thesis
        using Dir q True by (auto simp: update_conv' delete_conv' split: option.splits)
    qed
  qed
qed

lemma dir_del_dir:
  "lookup t q = Some (Dir es) \<Longrightarrow> \<not> prefix loc q \<Longrightarrow> \<exists>es'. lookup (del t loc) q = Some (Dir es')"
proof (induction q arbitrary: t loc es)
  case Nil
  then show ?case
    by (cases loc) (auto split: option.splits)
next
  case (Cons a q)
  then obtain ts where t: "t = Dir ts" by (cases t) auto
  with Cons.prems obtain t' where t': "map_of ts a = Some t'" "lookup t' q = Some (Dir es)"
    by (auto split: option.splits)
  from Cons.prems obtain c cs where loc: "loc = c # cs" by (cases loc) auto
  show ?case
  proof (cases "c = a")
    case False
    then show ?thesis
      using t t' loc by (auto simp: update_conv' delete_conv' split: option.splits)
  next
    case True
    with Cons.prems loc have np: "\<not> prefix cs q" by simp
    then have "cs \<noteq> []" by auto
    from Cons.IH [OF t'(2) np] obtain es' where "lookup (del t' cs) q = Some (Dir es')"
      by blast
    then show ?thesis
      using t t' loc True \<open>cs \<noteq> []\<close> by (simp add: update_conv')
  qed
qed

subsection \<open>Path resolution\<close>

lemma walk_append:
  "walk t cur (xs @ ys) = (case walk t cur xs of Inl e \<Rightarrow> Inl e | Inr c \<Rightarrow> walk t c ys)"
proof (induction xs arbitrary: cur)
  case Nil
  show ?case by simp
next
  case (Cons x xs)
  show ?case
    by (auto simp: Cons.IH split: option.splits fnode.splits)
qed

lemma walk_step_dir:
  "lookup t cur = Some (Dir es) \<Longrightarrow>
   walk t cur (c # cs) =
     (if c = [] \<or> c = ''.'' then walk t cur cs
      else if c = ''..'' then walk t (butlast cur) cs
      else walk t (cur @ [c]) cs)"
  by simp

lemma walk_start_dir: "walk t cur (c # cs) = Inr loc \<Longrightarrow> isdir_at t cur"
  by (auto simp: isdir_at_def split: option.splits fnode.splits)

declare walk.simps(2) [simp del]

text \<open>A walk that succeeds succeeds in every tree that keeps the directories.\<close>

lemma walk_mono:
  assumes "walk t cur cs = Inr loc"
    and "\<And>q. isdir_at t q \<Longrightarrow> isdir_at t' q"
  shows "walk t' cur cs = Inr loc"
  using assms(1)
proof (induction cs arbitrary: cur)
  case Nil
  then show ?case by simp
next
  case (Cons c cs)
  from walk_start_dir [OF Cons.prems] have d: "isdir_at t cur" .
  then obtain es where es: "lookup t cur = Some (Dir es)"
    by (auto simp: isdir_at_iff)
  from assms(2) [OF d] obtain es' where es': "lookup t' cur = Some (Dir es')"
    by (auto simp: isdir_at_iff)
  show ?case
    using Cons.prems Cons.IH
    by (simp only: walk_step_dir [OF es] walk_step_dir [OF es'] split: if_splits) auto
qed

lemma isdir_at_butlast: "isdir_at t cur \<Longrightarrow> isdir_at t (butlast cur)"
proof (cases cur rule: rev_cases)
  case Nil
  then show "isdir_at t cur \<Longrightarrow> isdir_at t (butlast cur)" by simp
next
  case (snoc p c)
  assume "isdir_at t cur"
  then obtain es where "lookup t (p @ c # []) = Some (Dir es)"
    using snoc by (auto simp: isdir_at_iff)
  from lookup_prefix_dir [OF this] show "isdir_at t (butlast cur)"
    using snoc by (simp add: isdir_at_iff)
qed

text \<open>
  The place a walk returns is a directory, or a name in one.
\<close>

lemma walk_parent:
  "walk t cur cs = Inr loc \<Longrightarrow> cs \<noteq> [] \<Longrightarrow>
     isdir_at t loc \<or> (loc \<noteq> [] \<and> isdir_at t (butlast loc))"
proof (induction cs arbitrary: cur)
  case Nil
  then show ?case by simp
next
  case (Cons c cs)
  from walk_start_dir [OF Cons.prems(1)] have d: "isdir_at t cur" .
  then obtain es where es: "lookup t cur = Some (Dir es)"
    by (auto simp: isdir_at_iff)
  show ?case
  proof (cases "cs = []")
    case True
    then show ?thesis
      using Cons.prems(1) d isdir_at_butlast [OF d]
      by (auto simp: walk_step_dir [OF es] split: if_splits)
  next
    case False
    then show ?thesis
      using Cons.prems(1) Cons.IH
      by (simp only: walk_step_dir [OF es] split: if_splits) auto
  qed
qed

lemma split_sep_not_Nil: "split_sep p \<noteq> []"
  by (induction p) (auto split: list.splits)

lemma namei_parent:
  "namei st p = Inr loc \<Longrightarrow>
     isdir_at (fs_root st) loc \<or> (loc \<noteq> [] \<and> isdir_at (fs_root st) (butlast loc))"
  using walk_parent [of "fs_root st" _ "split_sep p" loc] split_sep_not_Nil [of p]
  by (auto simp: namei_def split: if_splits)

text \<open>
  When the last component is a name, the walk ends at that name in a directory.
\<close>

lemma walk_empty_comps:
  "filter (\<lambda>c. c \<noteq> []) cs = [] \<Longrightarrow> walk t cur cs = Inr loc \<Longrightarrow> loc = cur"
proof (induction cs)
  case Nil
  then show ?case by simp
next
  case (Cons c cs)
  then show ?case
    by (auto simp: walk.simps(2) split: option.splits fnode.splits if_splits)
qed

lemma walk_normal_last:
  assumes "walk t cur cs = Inr loc"
    and "filter (\<lambda>c. c \<noteq> []) cs = x # xs"
    and "last (x # xs) \<noteq> ''.''" and "last (x # xs) \<noteq> ''..''"
  shows "loc \<noteq> [] \<and> last loc = last (x # xs) \<and> isdir_at t (butlast loc)"
  using assms
proof (induction cs arbitrary: cur x xs)
  case Nil
  then show ?case by simp
next
  case (Cons c cs)
  from walk_start_dir [OF Cons.prems(1)] have d: "isdir_at t cur" .
  then obtain es where es: "lookup t cur = Some (Dir es)"
    by (auto simp: isdir_at_iff)
  show ?case
  proof (cases "c = []")
    case True
    then show ?thesis
      using Cons.prems Cons.IH [of cur x xs] by (simp add: walk_step_dir [OF es])
  next
    case False
    with Cons.prems(2) have x: "x = c" and xs: "filter (\<lambda>c. c \<noteq> []) cs = xs" by auto
    show ?thesis
    proof (cases xs)
      case Nil
      with x Cons.prems(3,4) have c: "c \<noteq> ''.''" "c \<noteq> ''..''" by auto
      from Cons.prems(1) False c have "walk t (cur @ [c]) cs = Inr loc"
        by (simp add: walk_step_dir [OF es])
      from walk_empty_comps [OF _ this] xs Nil have "loc = cur @ [c]" by simp
      then show ?thesis using d x Nil by simp
    next
      case (Cons y ys)
      obtain cur' where w: "walk t cur' cs = Inr loc"
        using Cons.prems(1) by (auto simp: walk_step_dir [OF es] split: if_splits)
      from Cons.IH [OF w] xs Cons Cons.prems(3,4) x show ?thesis by simp
    qed
  qed
qed

lemma namei_normal_last:
  assumes "namei st p = Inr loc" and "normal_last p"
  shows "loc \<noteq> [] \<and> isdir_at (fs_root st) (butlast loc)"
proof -
  obtain cur where w: "walk (fs_root st) cur (split_sep p) = Inr loc"
    using assms(1) by (auto simp: namei_def split: if_splits)
  from assms(2) obtain x xs where f: "filter (\<lambda>c. c \<noteq> []) (split_sep p) = x # xs"
    by (cases "filter (\<lambda>c. c \<noteq> []) (split_sep p)") (auto simp: normal_last_def last_comp_def)
  with assms(2) have "last (x # xs) \<noteq> ''.''" "last (x # xs) \<noteq> ''..''"
    by (auto simp: normal_last_def last_comp_def)
  from walk_normal_last [OF w f this] show ?thesis by simp
qed

subsection \<open>Writing and reading a file\<close>

lemma universal_newlines_no_CR: "CR \<notin> set c \<Longrightarrow> universal_newlines c = c"
  by (induction c rule: universal_newlines.induct) auto

lemma write_file_stat:
  assumes "write_file p c st = (Inr u, st')"
  shows "stat st' p = Inr (File c)"
proof -
  from assms obtain loc where loc: "namei st p = Inr loc"
    and nd: "\<not> isdir_at (fs_root st) loc"
    and st': "st' = st\<lparr>fs_root := put (fs_root st) loc (File c)\<rparr>"
    by (auto simp: write_file_def isdir_at_def split: sum.splits option.splits fnode.splits)
  from namei_parent [OF loc] nd have par: "loc \<noteq> []" "isdir_at (fs_root st) (butlast loc)"
    by auto
  have keep: "isdir_at (put (fs_root st) loc (File c)) q" if "isdir_at (fs_root st) q" for q
    using that dir_put_dir [OF _ nd, of q _ "File c"] by (auto simp: isdir_at_iff)
  have "namei st' p = Inr loc"
    using loc walk_mono [OF _ keep] by (auto simp: namei_def st' split: if_splits)
  moreover have "lookup (fs_root st') loc = Some (File c)"
    using lookup_put_same [OF par] by (simp add: st')
  ultimately show ?thesis
    by (simp add: stat_def)
qed

lemma and_then_Inr:
  "and_then m f st = (Inr r, st') \<longleftrightarrow> (\<exists>v st1. m st = (Inr v, st1) \<and> f v st1 = (Inr r, st'))"
  by (auto simp: and_then_def split: prod.splits sum.splits)

lemma fs_write_stat:
  assumes "fs_write p c st = (Inr r, st')"
  shows "stat st' (safe_path p) = Inr (File c)"
  using assms write_file_stat
  by (auto simp: fs_write_def and_then_Inr return_ok_def)

lemma fs_read_file:
  "stat st t = Inr (File c) \<Longrightarrow> safe_path p = t \<Longrightarrow>
     fs_read p st = (Inr (universal_newlines c, 200), st)"
  by (simp add: fs_read_def path_exists_def read_file_def read_bytes_def)

lemma fresh_store_eq:
  "fresh_store =
     \<lparr>fs_root = Dir [(''srv'', Dir [(''decisions'', Dir [(''0'', Dir []), (''HEAD'', File ''0'')])])],
      cwd = [''srv'']\<rparr>"
  by code_simp

subsection \<open>Integers as text\<close>

lemma is_digit_not:
  assumes "is_digit c"
  shows "c \<noteq> sep" "c \<noteq> CR" "c \<noteq> CHR 0x00" "c \<noteq> CHR ''.''" "c \<noteq> CHR ''-''"
    "c \<noteq> CHR ''+''" "c \<noteq> CHR ''_''" "\<not> is_space c"
  using assms by (auto simp: is_digit_def sep_def CR_def is_space_def)

lemma not_digit:
  "\<not> is_digit sep" "\<not> is_digit CR" "\<not> is_digit (CHR 0x00)" "\<not> is_digit CHR ''.''"
  "\<not> is_digit CHR ''-''" "\<not> is_digit CHR ''H''"
  by (simp_all add: is_digit_def sep_def CR_def)

lemma digit_char_digit:
  assumes "d < 10"
  shows "is_digit (digit_char d)" "digit_val (digit_char d) = d"
  using assms by (simp_all add: is_digit_def digit_val_def digit_char_def)

lemma str_nat_digits: "list_all is_digit (str_nat n) \<and> str_nat n \<noteq> []"
proof (induction n rule: str_nat.induct)
  case (1 n)
  show ?case
  proof (cases "n < 10")
    case True
    then show ?thesis
      by (subst (1 2) str_nat.simps) (simp add: digit_char_digit)
  next
    case False
    with 1 show ?thesis
      by (subst (1 2) str_nat.simps) (simp add: digit_char_digit)
  qed
qed

lemma int_digits_snoc:
  "list_all is_digit xs \<Longrightarrow> is_digit d \<Longrightarrow>
     int_digits acc (xs @ [d]) = map_option (\<lambda>a. 10 * a + digit_val d) (int_digits acc xs)"
  by (induction xs arbitrary: acc) auto

lemma nat_literal_snoc:
  "list_all is_digit xs \<Longrightarrow> xs \<noteq> [] \<Longrightarrow> is_digit d \<Longrightarrow>
     nat_literal (xs @ [d]) = map_option (\<lambda>a. 10 * a + digit_val d) (nat_literal xs)"
  by (cases xs) (auto simp: nat_literal_def int_digits_snoc)

lemma nat_literal_str_nat: "nat_literal (str_nat n) = Some n"
proof (induction n rule: str_nat.induct)
  case (1 n)
  show ?case
  proof (cases "n < 10")
    case True
    then show ?thesis
      by (subst str_nat.simps) (simp add: nat_literal_def digit_char_digit)
  next
    case False
    then have "nat_literal (str_nat (n div 10) @ [digit_char (n mod 10)])
        = Some (10 * (n div 10) + n mod 10)"
      using 1 str_nat_digits [of "n div 10"]
      by (simp add: nat_literal_snoc digit_char_digit)
    with False show ?thesis
      by (subst str_nat.simps) simp
  qed
qed

lemma dropWhile_ends_id:
  assumes "s \<noteq> []" and "\<not> P (hd s)" and "\<not> P (last s)"
  shows "rev (dropWhile P (rev (dropWhile P s))) = s"
proof -
  have "dropWhile P s = s"
    using assms by (cases s) auto
  moreover have "dropWhile P (rev s) = rev s"
    using assms by (cases s rule: rev_cases) auto
  ultimately show ?thesis
    by simp
qed

lemma strip_id:
  assumes "s \<noteq> []" and "\<not> is_space (hd s)" and "\<not> is_space (last s)"
  shows "strip s = s"
  using dropWhile_ends_id [OF assms] by (simp add: strip_def)

lemma is_c_space_is_space: "is_c_space c \<Longrightarrow> is_space c"
  by (auto simp: is_c_space_def is_space_def)

lemma py_str_chars: "c \<in> set (py_str n) \<Longrightarrow> is_digit c \<or> c = CHR ''-''"
  using str_nat_digits [of "nat n"] str_nat_digits [of "nat (- n)"]
  by (auto simp: py_str_def list_all_iff split: if_splits)

lemma py_str_ends: "py_str n \<noteq> [] \<and> \<not> is_space (hd (py_str n)) \<and> is_digit (last (py_str n))"
proof -
  have "xs \<noteq> [] \<Longrightarrow> list_all is_digit xs \<Longrightarrow> is_digit (hd xs) \<and> is_digit (last xs)" for xs
    using hd_in_set [of xs] last_in_set [of xs] by (simp add: list_all_iff)
  from this [of "str_nat (nat n)"] this [of "str_nat (nat (- n))"]
  have d: "is_digit (hd (str_nat (nat n)))" "is_digit (last (str_nat (nat n)))"
    "is_digit (last (str_nat (nat (- n))))"
    using str_nat_digits [of "nat n"] str_nat_digits [of "nat (- n)"] by simp_all
  have m: "\<not> is_space CHR ''-''"
    by (simp add: is_space_def)
  show ?thesis
  proof (cases "n < 0")
    case True
    then show ?thesis
      using d(3) m str_nat_digits [of "nat (- n)"] by (simp add: py_str_def)
  next
    case False
    then show ?thesis
      using d(1,2) str_nat_digits [of "nat n"] is_digit_not(8) [OF d(1)] by (simp add: py_str_def)
  qed
qed

lemma strip_py_str: "strip (py_str n) = py_str n"
  using py_str_ends [of n] by (intro strip_id) (auto simp: is_digit_not)

lemma c_strip_py_str:
  "rev (dropWhile is_c_space (rev (dropWhile is_c_space (py_str n)))) = py_str n"
proof -
  from py_str_ends [of n] have "py_str n \<noteq> []" "\<not> is_space (hd (py_str n))"
    "\<not> is_space (last (py_str n))"
    by (simp_all add: is_digit_not)
  then show ?thesis
    using is_c_space_is_space by (intro dropWhile_ends_id) blast+
qed

lemma py_int_py_str: "py_int (py_str n) = Inr n"
proof (cases "n < 0")
  case True
  then show ?thesis
    by (simp add: py_int_def c_strip_py_str) (simp add: py_str_def nat_literal_str_nat)
next
  case False
  obtain c cs where s: "str_nat (nat n) = c # cs"
    using str_nat_digits [of "nat n"] by (cases "str_nat (nat n)") auto
  with str_nat_digits [of "nat n"] have "is_digit c" by simp
  then have "c \<noteq> CHR ''-''" "c \<noteq> CHR ''+''" by (auto simp: is_digit_not)
  moreover have "nat_literal (c # cs) = Some (nat n)"
    using nat_literal_str_nat [of "nat n"] s by simp
  ultimately show ?thesis
    using False s by (simp add: py_int_def c_strip_py_str) (simp add: py_str_def)
qed

lemma universal_newlines_py_str: "universal_newlines (py_str n) = py_str n"
  using py_str_chars [of CR n] by (intro universal_newlines_no_CR) (auto simp: not_digit, simp add: CR_def)

lemma py_str_inj: "py_str m = py_str n \<Longrightarrow> m = n"
  by (metis py_int_py_str sum.inject(2))

lemma valid_name_py_str: "valid_name (py_str n)"
proof -
  have "sep \<notin> set (py_str n)" "CHR 0x00 \<notin> set (py_str n)" "CHR ''.'' \<notin> set (py_str n)"
    using py_str_chars [of sep n] py_str_chars [of "CHR 0x00" n] py_str_chars [of "CHR ''.''" n]
    by (auto simp: not_digit, simp_all add: sep_def)
  moreover have "py_str n \<noteq> []"
    using py_str_ends by blast
  ultimately show ?thesis
    by (auto simp: valid_name_def)
qed

lemma py_str_not_HEAD: "py_str n \<noteq> ''HEAD''"
  using py_str_chars [of "CHR ''H''" n] by (auto simp: not_digit)

subsection \<open>Paths with a name appended\<close>

lemma split_sep_Cons:
  "split_sep (c # cs) =
     (if c = sep then [] # split_sep cs else (c # hd (split_sep cs)) # tl (split_sep cs))"
  using split_sep_not_Nil [of cs] by (cases "split_sep cs") auto

lemma split_sep_name: "sep \<notin> set nm \<Longrightarrow> split_sep nm = [nm]"
  by (induction nm) auto

lemma split_sep_append: "split_sep (d @ sep # nm) = split_sep d @ split_sep nm"
proof (induction d)
  case Nil
  show ?case
    using split_sep_not_Nil [of nm] by (cases "split_sep nm") auto
next
  case (Cons c d)
  have "split_sep (d @ sep # nm) \<noteq> []" "split_sep d \<noteq> []"
    by (rule split_sep_not_Nil)+
  then show ?case
    using Cons.IH
    by (cases "split_sep d")
      (auto simp del: split_sep.simps simp add: split_sep_Cons)
qed

lemma join_name:
  "valid_name nm \<Longrightarrow> d \<noteq> [] \<Longrightarrow> last d \<noteq> sep \<Longrightarrow> join d nm = d @ sep # nm"
  by (cases nm) (auto simp: join_def valid_name_def)

lemma namei_name:
  assumes "namei st d = Inr loc" and "isdir_at (fs_root st) loc" and "valid_name nm"
  shows "namei st (d @ sep # nm) = Inr (loc @ [nm])"
proof -
  from assms(1) have d: "d \<noteq> []" "CHR 0x00 \<notin> set d"
    and w: "walk (fs_root st) (if hd d = sep then [] else cwd st) (split_sep d) = Inr loc"
    by (auto simp: namei_def split: if_splits)
  obtain es where es: "lookup (fs_root st) loc = Some (Dir es)"
    using assms(2) by (auto simp: isdir_at_iff)
  have "walk (fs_root st) (if hd d = sep then [] else cwd st) (split_sep d @ [nm])
      = Inr (loc @ [nm])"
    using assms(3) by (simp add: walk_append w walk_step_dir [OF es] valid_name_def)
  moreover have "hd (d @ sep # nm) = hd d"
    using d(1) by simp
  moreover have "CHR 0x00 \<noteq> sep"
    by (simp add: sep_def)
  ultimately show ?thesis
    using d assms(3)
    by (simp add: namei_def split_sep_append split_sep_name valid_name_def
        del: split_sep.simps)
qed

lemma path_split_name:
  assumes "valid_name nm" and "d \<noteq> []" and "last d \<noteq> sep"
  shows "path_split (d @ sep # nm) = (d, nm)"
proof -
  have n: "\<And>c. c \<in> set (rev nm) \<Longrightarrow> c \<noteq> sep"
    using assms(1) by (auto simp: valid_name_def)
  have t: "rev (takeWhile (\<lambda>c. c \<noteq> sep) (rev (d @ sep # nm))) = nm"
    using takeWhile_append2 [of "rev nm" "\<lambda>c. c \<noteq> sep" "sep # rev d"] n by simp
  have h: "rev (dropWhile (\<lambda>c. c \<noteq> sep) (rev (d @ sep # nm))) = d @ [sep]"
    using dropWhile_append2 [of "rev nm" "\<lambda>c. c \<noteq> sep" "sep # rev d"] n by simp
  obtain x xs where r: "rev d = x # xs" "x \<noteq> sep"
    using assms(2,3) by (cases d rule: rev_cases) auto
  then have s: "rev (dropWhile (\<lambda>c. c = sep) (rev (d @ [sep]))) = d"
    by (simp add: rev_swap [symmetric])
  have ne: "d @ [sep] \<noteq> replicate (length (d @ [sep])) sep"
  proof
    assume "d @ [sep] = replicate (length (d @ [sep])) sep"
    then have "set (d @ [sep]) \<subseteq> {sep}"
      by (metis set_replicate_conv_if subset_refl empty_subsetI)
    moreover have "last d \<in> set d"
      using assms(2) by simp
    ultimately show False
      using assms(3) by auto
  qed
  show ?thesis
    unfolding path_split_def Let_def t h using ne s by simp
qed

lemma makedirs_existing_parent:
  assumes "valid_name nm" and "d \<noteq> []" and "last d \<noteq> sep" and "path_exists st d"
  shows "makedirs (d @ sep # nm) exist_ok st = makedirs_leaf (d @ sep # nm) exist_ok st"
proof -
  have "makedirs_split (d @ sep # nm) = (d, nm)"
    using assms(1) path_split_name [OF assms(1,2,3)] by (simp add: makedirs_split_def valid_name_def)
  then show ?thesis
    using assms(4) by (subst makedirs.simps) simp
qed

lemma mkdir_new:
  assumes "namei st p = Inr loc" and "lookup (fs_root st) loc = None"
  shows "mkdir p st = (Inr (), st\<lparr>fs_root := put (fs_root st) loc (Dir [])\<rparr>)"
  using assms by (simp add: mkdir_def)

lemma makedirs_leaf_new:
  assumes "namei st p = Inr loc" and "lookup (fs_root st) loc = None"
  shows "makedirs_leaf p exist_ok st = (Inr (), st\<lparr>fs_root := put (fs_root st) loc (Dir [])\<rparr>)"
  using mkdir_new [OF assms] by (simp add: makedirs_leaf_def)

lemma makedirs_leaf_existing_dir:
  assumes "isdir st p"
  shows "makedirs_leaf p True st = (Inr (), st)"
  using assms
  by (auto simp: makedirs_leaf_def mkdir_def isdir_def stat_def
      split: sum.splits option.splits fnode.splits)

subsection \<open>The storage root\<close>

lemma STORAGE_ROOT_shape: "STORAGE_ROOT \<noteq> []" "last STORAGE_ROOT \<noteq> sep"
  "hd STORAGE_ROOT \<noteq> sep" "CHR 0x00 \<notin> set STORAGE_ROOT"
  "split_sep STORAGE_ROOT = [''.'', ''decisions'']"
  by code_simp+

lemma root_dir_shape: "root_dir \<noteq> []" "last root_dir \<noteq> sep"
  "hd root_dir \<noteq> sep" "CHR 0x00 \<notin> set root_dir"
  "split_sep root_dir = [''decisions'']"
  by code_simp+

lemma root_dir_eq: "root_dir = ''decisions''"
  by code_simp

lemma valid_name_HEAD: "valid_name ''HEAD''"
  by code_simp

lemma head_path_eq: "head_path = STORAGE_ROOT @ sep # ''HEAD''"
  by code_simp

lemma safe_path_HEAD: "safe_path ''HEAD'' = root_dir @ sep # ''HEAD''"
  by code_simp

lemma isdir_at_cwd:
  assumes "isdir_at (fs_root st) (root_loc st)"
  shows "isdir_at (fs_root st) (cwd st)"
  using isdir_at_butlast [OF assms] by (simp add: root_loc_def)

lemma namei_storage_root:
  assumes "isdir_at (fs_root st) (root_loc st)"
  shows "namei st STORAGE_ROOT = Inr (root_loc st)" "namei st root_dir = Inr (root_loc st)"
proof -
  obtain es where es: "lookup (fs_root st) (cwd st) = Some (Dir es)"
    using isdir_at_cwd [OF assms] by (auto simp: isdir_at_iff)
  show "namei st STORAGE_ROOT = Inr (root_loc st)"
    by (simp add: namei_def STORAGE_ROOT_shape walk_step_dir [OF es] root_loc_def)
  show "namei st root_dir = Inr (root_loc st)"
    by (simp add: namei_def root_dir_shape walk_step_dir [OF es] root_loc_def)
qed

lemma namei_in_root:
  assumes "isdir_at (fs_root st) (root_loc st)" and "valid_name nm"
  shows "namei st (STORAGE_ROOT @ sep # nm) = Inr (root_loc st @ [nm])"
    "namei st (root_dir @ sep # nm) = Inr (root_loc st @ [nm])"
  using namei_name [OF namei_storage_root(1) [OF assms(1)] assms]
    namei_name [OF namei_storage_root(2) [OF assms(1)] assms]
  by simp_all

lemma join_STORAGE_ROOT: "valid_name nm \<Longrightarrow> join STORAGE_ROOT nm = STORAGE_ROOT @ sep # nm"
  by (simp add: join_name STORAGE_ROOT_shape)

lemma safe_path_name:
  assumes "valid_name nm"
  shows "safe_path nm = root_dir @ sep # nm"
proof -
  have i: "initial_slashes (STORAGE_ROOT @ sep # nm) = 0"
    by (simp add: initial_slashes_def STORAGE_ROOT_def sep_def)
  have s: "split_sep (STORAGE_ROOT @ sep # nm) = [''.'', ''decisions'', nm]"
    using assms
    by (simp add: split_sep_append split_sep_name STORAGE_ROOT_shape valid_name_def
        del: split_sep.simps)
  have f: "foldl (norm_comp 0) [] [''.'', ''decisions'', nm] = [''decisions'', nm]"
    using assms by (simp add: norm_comp_def valid_name_def)
  have "normpath (STORAGE_ROOT @ sep # nm) = ''decisions'' @ sep # nm"
    unfolding normpath_def Let_def i s f by (simp add: STORAGE_ROOT_shape)
  then show ?thesis
    using assms by (simp add: safe_path_def join_STORAGE_ROOT root_dir_eq)
qed

lemma lookup_in_dir:
  "lookup t d = Some (Dir es) \<Longrightarrow>
     lookup t (d @ nm # r) = (case map_of es nm of None \<Rightarrow> None | Some x \<Rightarrow> lookup x r)"
  by (simp add: lookup_append)

subsection \<open>Allocation in a well-formed store\<close>

lemma rev_of_name_py_str: "rev_of_name (py_str n) = Some n"
  by (simp add: rev_of_name_def py_int_py_str)

lemma rev_of_name_Some: "rev_of_name nm = Some n \<Longrightarrow> nm = py_str n"
  by (auto simp: rev_of_name_def split: sum.splits if_splits)

lemma rev_of_name_HEAD: "rev_of_name ''HEAD'' = None"
  by code_simp

lemma read_head_in_root:
  assumes "lookup (fs_root st) (root_loc st) = Some (Dir es)"
  shows "read_head st =
    (case map_of es ''HEAD'' of
       None \<Rightarrow> Inl FileNotFoundError
     | Some (Dir es') \<Rightarrow> Inl IsADirectoryError
     | Some (File c) \<Rightarrow> py_int (strip (universal_newlines c)))"
proof -
  have d: "isdir_at (fs_root st) (root_loc st)"
    using assms by (simp add: isdir_at_iff)
  have "lookup (fs_root st) (root_loc st @ [''HEAD'']) = map_of es ''HEAD''"
    using lookup_in_dir [OF assms, of "''HEAD''" "[]"] by (simp split: option.splits)
  then show ?thesis
    by (simp add: read_head_def read_file_def read_bytes_def stat_def head_path_eq
        namei_in_root(1) [OF d valid_name_HEAD] split: option.splits fnode.splits)
qed

lemma store_okD:
  assumes "store_ok st"
  shows "\<exists>es h. lookup (fs_root st) (root_loc st) = Some (Dir es)
    \<and> read_head st = Inr h \<and> 0 \<le> h
    \<and> set (List.map_filter rev_of_name (map fst es)) = {0..h}
    \<and> (\<forall>n. 0 \<le> n \<and> n \<le> h \<longrightarrow> is_dir_entry es (py_str n))"
  using assms
  by (auto simp: store_ok_def existing_revisions_def list_all_iff
      split: option.splits fnode.splits sum.splits)

lemma store_okI:
  assumes "lookup (fs_root st) (root_loc st) = Some (Dir es)"
    and "read_head st = Inr h" and "0 \<le> h"
    and "set (List.map_filter rev_of_name (map fst es)) = {0..h}"
    and "\<And>n. 0 \<le> n \<Longrightarrow> n \<le> h \<Longrightarrow> is_dir_entry es (py_str n)"
  shows "store_ok st"
  using assms by (auto simp: store_ok_def existing_revisions_def list_all_iff)

lemma path_exists_STORAGE_ROOT:
  assumes "isdir_at (fs_root st) (root_loc st)"
  shows "path_exists st STORAGE_ROOT" "path_exists st root_dir"
  using assms
  by (auto simp: path_exists_def stat_def namei_storage_root isdir_at_iff)

lemma bump_rev_ok:
  assumes "store_ok st" and "read_head st = Inr h"
  shows "\<exists>st' es. bump_rev st = (Inr (h + 1), st') \<and> store_ok st' \<and> read_head st' = Inr (h + 1)
    \<and> cwd st' = cwd st
    \<and> lookup (fs_root st) (root_loc st) = Some (Dir es)
    \<and> map_of es (py_str (h + 1)) = None
    \<and> lookup (fs_root st') (root_loc st)
        = Some (Dir (AList.update ''HEAD'' (File (py_str (h + 1)))
                      (AList.update (py_str (h + 1)) (Dir []) es)))"
proof -
  from store_okD [OF assms(1)]
  obtain es h' where es: "lookup (fs_root st) (root_loc st) = Some (Dir es)"
    and h': "read_head st = Inr h'" and h0': "0 \<le> h'"
    and revs': "set (List.map_filter rev_of_name (map fst es)) = {0..h'}"
    and dirs': "\<forall>n. 0 \<le> n \<and> n \<le> h' \<longrightarrow> is_dir_entry es (py_str n)"
    by blast
  from h' assms(2) have hh: "h' = h" by simp
  note h0 = h0' [unfolded hh] and revs = revs' [unfolded hh] and dirs = dirs' [unfolded hh]
  let ?N = "py_str (h + 1)"
  let ?R = "root_loc st"
  have vN: "valid_name ?N" by (rule valid_name_py_str)
  have dR: "isdir_at (fs_root st) ?R"
    using es by (simp add: isdir_at_iff)
  have noN: "map_of es ?N = None"
  proof (rule ccontr)
    assume "map_of es ?N \<noteq> None"
    then have "?N \<in> set (map fst es)"
      by (auto simp: map_of_eq_None_iff)
    then have "h + 1 \<in> set (List.map_filter rev_of_name (map fst es))"
      by (auto simp: map_filter_def rev_of_name_py_str intro!: image_eqI [where x = ?N])
    with revs show False by simp
  qed
  obtain hc where hc: "map_of es ''HEAD'' = Some (File hc)"
    using assms(2) read_head_in_root [OF es]
    by (auto split: option.splits fnode.splits)
  define st1 where "st1 = st\<lparr>fs_root := put (fs_root st) (?R @ [?N]) (Dir [])\<rparr>"
  have R1: "root_loc st1 = ?R"
    by (simp add: st1_def root_loc_def)
  have newN: "lookup (fs_root st) (?R @ [?N]) = None"
    using lookup_in_dir [OF es, of ?N "[]"] noN by simp
  have m: "makedirs (join STORAGE_ROOT ?N) False st = (Inr (), st1)"
    unfolding join_STORAGE_ROOT [OF vN] st1_def
    using makedirs_existing_parent [OF vN STORAGE_ROOT_shape(1,2) path_exists_STORAGE_ROOT(1) [OF dR]]
      makedirs_leaf_new [OF namei_in_root(1) [OF dR vN] newN]
    by simp
  have es1: "lookup (fs_root st1) ?R = Some (Dir (AList.update ?N (Dir []) es))"
    by (simp add: st1_def lookup_put_child [OF es])
  have dR1: "isdir_at (fs_root st1) (root_loc st1)"
    using es1 R1 by (simp add: isdir_at_iff)
  define st2 where "st2 = st1\<lparr>fs_root := put (fs_root st1) (?R @ [''HEAD'']) (File ?N)\<rparr>"
  have R2: "root_loc st2 = ?R"
    by (simp add: st2_def st1_def root_loc_def)
  have "lookup (fs_root st1) (?R @ [''HEAD'']) = Some (File hc)"
    using lookup_in_dir [OF es1, of "''HEAD''" "[]"] hc py_str_not_HEAD [of "h + 1"]
    by (simp add: update_conv')
  then have w: "write_head (h + 1) st1 = (Inr (), st2)"
    using namei_in_root(1) [OF dR1 valid_name_HEAD]
    by (simp add: write_head_def write_file_def head_path_eq st2_def R1)
  have es2: "lookup (fs_root st2) ?R
      = Some (Dir (AList.update ''HEAD'' (File ?N) (AList.update ?N (Dir []) es)))"
    by (simp add: st2_def lookup_put_child [OF es1])
  have b: "bump_rev st = (Inr (h + 1), st2)"
    by (simp add: bump_rev_def and_then_def current_rev_def assms(2) m w return_ok_def)
  have rh2: "read_head st2 = Inr (h + 1)"
    using read_head_in_root [of st2, unfolded R2, OF es2]
    by (simp add: update_conv' universal_newlines_py_str strip_py_str py_int_py_str)
  have keys: "map fst (AList.update ''HEAD'' (File ?N) (AList.update ?N (Dir []) es))
      = map fst es @ [?N]"
  proof -
    have "''HEAD'' \<in> fst ` set es"
      using hc by (metis map_of_eq_None_iff option.distinct(1))
    moreover have "?N \<notin> fst ` set es"
      using noN by (simp add: map_of_eq_None_iff)
    ultimately show ?thesis
      by (auto simp: update_keys)
  qed
  have revs2: "set (List.map_filter rev_of_name
        (map fst (AList.update ''HEAD'' (File ?N) (AList.update ?N (Dir []) es)))) = {0..h + 1}"
    using revs h0 unfolding keys
    by (auto simp: map_filter_def rev_of_name_py_str)
  have dirs2: "is_dir_entry (AList.update ''HEAD'' (File ?N) (AList.update ?N (Dir []) es)) (py_str n)"
    if "0 \<le> n" "n \<le> h + 1" for n
  proof (cases "n = h + 1")
    case True
    then show ?thesis
      using py_str_not_HEAD [of "h + 1"] by (simp add: is_dir_entry_def update_conv')
  next
    case False
    with that have "n \<le> h" by simp
    with dirs that(1) have "is_dir_entry es (py_str n)" by simp
    then show ?thesis
      using py_str_not_HEAD [of n] False py_str_inj [of n "h + 1"]
      by (auto simp: is_dir_entry_def update_conv')
  qed
  have "store_ok st2"
    using h0 by (intro store_okI [of st2, unfolded R2, OF es2 rh2 _ revs2 dirs2]) auto
  moreover have "cwd st2 = cwd st"
    by (simp add: st2_def st1_def)
  ultimately show ?thesis
    using b rh2 es es2 noN by blast
qed

lemma store_ok_revisions:
  "store_ok st \<Longrightarrow> read_head st = Inr h \<Longrightarrow> set (existing_revisions st) = {0..h}"
  by (auto simp: store_ok_def split: option.splits fnode.splits sum.splits)

lemma namei_name_conv:
  assumes "namei st (d @ sep # nm) = Inr loc" and "valid_name nm" and "d \<noteq> []"
  shows "\<exists>l. namei st d = Inr l \<and> isdir_at (fs_root st) l \<and> loc = l @ [nm]"
proof -
  let ?cur = "if hd d = sep then [] else cwd st"
  from assms(1,3) have z: "CHR 0x00 \<notin> set d"
    and w: "walk (fs_root st) ?cur (split_sep d @ [nm]) = Inr loc"
    using assms(2)
    by (auto simp: namei_def split_sep_append split_sep_name valid_name_def
        simp del: split_sep.simps split: if_splits)
  from w obtain l where l: "walk (fs_root st) ?cur (split_sep d) = Inr l"
    and n: "walk (fs_root st) l [nm] = Inr loc"
    by (auto simp: walk_append split: sum.splits)
  from walk_start_dir [OF n] have dl: "isdir_at (fs_root st) l" .
  then obtain es where "lookup (fs_root st) l = Some (Dir es)"
    by (auto simp: isdir_at_iff)
  from n walk_step_dir [OF this, of nm "[]"] assms(2) have "loc = l @ [nm]"
    by (simp add: valid_name_def)
  with l dl z assms(3) show ?thesis
    by (simp add: namei_def)
qed

lemma bump_rev_conflict:
  assumes "read_head st = Inr n" and "path_exists st (join STORAGE_ROOT (py_str (n + 1)))"
  shows "bump_rev st = (Inl FileExistsError, st)"
proof -
  let ?N = "py_str (n + 1)"
  have vN: "valid_name ?N" by (rule valid_name_py_str)
  from assms(2) obtain loc x where loc: "namei st (STORAGE_ROOT @ sep # ?N) = Inr loc"
    and x: "lookup (fs_root st) loc = Some x"
    by (auto simp: path_exists_def stat_def join_STORAGE_ROOT [OF vN]
        split: sum.splits option.splits)
  from namei_name_conv [OF loc vN STORAGE_ROOT_shape(1)]
  obtain l where l: "namei st STORAGE_ROOT = Inr l" "isdir_at (fs_root st) l"
    by blast
  then have "path_exists st STORAGE_ROOT"
    by (auto simp: path_exists_def stat_def isdir_at_iff)
  from makedirs_existing_parent [OF vN STORAGE_ROOT_shape(1,2) this]
  have "makedirs (join STORAGE_ROOT ?N) False st = (Inl FileExistsError, st)"
    using loc x by (simp add: join_STORAGE_ROOT [OF vN] makedirs_leaf_def mkdir_def)
  then show ?thesis
    by (simp add: bump_rev_def and_then_def current_rev_def assms(1))
qed

lemma allocate_many_ok:
  assumes "store_ok st" and "read_head st = Inr h"
  shows "\<exists>st'. allocate_many k st = (Inr [h + 1..h + int k], st') \<and> store_ok st'
    \<and> read_head st' = Inr (h + int k)"
  using assms
proof (induction k arbitrary: st h)
  case 0
  then show ?case by simp
next
  case (Suc k)
  from bump_rev_ok [OF Suc.prems]
  obtain st1 where b: "bump_rev st = (Inr (h + 1), st1)" and ok1: "store_ok st1"
    and h1: "read_head st1 = Inr (h + 1)"
    by blast
  from Suc.IH [OF ok1 h1]
  obtain st' where a: "allocate_many k st1 = (Inr [h + 1 + 1..h + 1 + int k], st')"
    and ok': "store_ok st'" and h': "read_head st' = Inr (h + 1 + int k)"
    by blast
  have "[h + 1..h + int (Suc k)] = (h + 1) # [h + 1 + 1..h + 1 + int k]"
    by (simp add: upto_rec1 add.commute add.left_commute)
  with a b ok' h' show ?case
    by (simp add: add.commute add.left_commute)
qed

lemma read_head_root_dir:
  assumes "read_head st = Inr h"
  shows "isdir_at (fs_root st) (root_loc st)"
proof -
  from assms obtain loc where "namei st (STORAGE_ROOT @ sep # ''HEAD'') = Inr loc"
    by (auto simp: read_head_def read_file_def read_bytes_def stat_def head_path_eq
        split: sum.splits)
  from namei_name_conv [OF this valid_name_HEAD STORAGE_ROOT_shape(1)]
  obtain l where l: "namei st STORAGE_ROOT = Inr l" and d: "isdir_at (fs_root st) l"
    by blast
  from l have w: "walk (fs_root st) (cwd st) [''.'', ''decisions''] = Inr l"
    by (simp add: namei_def STORAGE_ROOT_shape split: if_splits)
  from walk_start_dir [OF w] obtain es where "lookup (fs_root st) (cwd st) = Some (Dir es)"
    by (auto simp: isdir_at_iff)
  with w have "l = root_loc st"
    by (simp add: walk_step_dir root_loc_def)
  with d show ?thesis by simp
qed

lemma makedirs_split_root_dir: "makedirs_split root_dir = ([], ''decisions'')"
  by code_simp

lemma makedirs_root_dir:
  assumes "isdir_at (fs_root st) (root_loc st)"
  shows "makedirs root_dir True st = (Inr (), st)"
proof -
  have "isdir st root_dir"
    using assms by (auto simp: isdir_def stat_def namei_storage_root isdir_at_iff)
  from makedirs_leaf_existing_dir [OF this] show ?thesis
    by (subst makedirs.simps) (simp add: makedirs_split_root_dir)
qed

lemma dirname_in_root: "valid_name nm \<Longrightarrow> dirname (root_dir @ sep # nm) = root_dir"
  by (simp add: dirname_def path_split_name root_dir_shape)

subsection \<open>Copying a revision\<close>

lemma fs_ok_lookup: "fs_ok t \<Longrightarrow> lookup t loc = Some n \<Longrightarrow> fs_ok n"
proof (induction loc arbitrary: t)
  case Nil
  then show ?case by simp
next
  case (Cons c loc)
  then obtain es t' where t: "t = Dir es" and t': "map_of es c = Some t'"
    and l: "lookup t' loc = Some n"
    by (cases t) (auto split: option.splits)
  from t' have "t' \<in> set (map snd es)"
    by (force dest: map_of_SomeD)
  with Cons.prems(1) t have "fs_ok t'"
    by (auto simp: list_all_iff)
  from Cons.IH [OF this l] show ?case .
qed

lemma root_loc_fs_root [simp]: "root_loc (s\<lparr>fs_root := t\<rparr>) = root_loc s"
  by (simp add: root_loc_def)

lemma update_new: "map_of es nm = None \<Longrightarrow> AList.update nm n es = es @ [(nm, n)]"
  by (induction es) (auto split: if_splits)

lemma update_replace_last:
  "map_of es nm = None \<Longrightarrow> AList.update nm x (es @ [(nm, y)]) = es @ [(nm, x)]"
  by (induction es) (auto split: if_splits)

lemma path_with_name_shape:
  assumes "valid_name nm"
  shows "d @ sep # nm \<noteq> [] \<and> last (d @ sep # nm) \<noteq> sep"
proof -
  from assms have n: "nm \<noteq> []" "sep \<notin> set nm"
    by (simp_all add: valid_name_def)
  then have "last nm \<in> set nm"
    by simp
  with n have "last nm \<noteq> sep"
    by metis
  with n(1) show ?thesis
    by simp
qed

text \<open>
  The paths of two revisions \<open>H\<close> and \<open>N\<close> and of an entry \<open>nm\<close> in each.
\<close>

lemma namei_revision:
  assumes "lookup (fs_root s) (root_loc s @ [H]) = Some (Dir ses)" and "valid_name H"
  shows "namei s (root_dir @ sep # H) = Inr (root_loc s @ [H])"
    and "isdir_at (fs_root s) (root_loc s @ [H])"
    and "valid_name nm \<Longrightarrow>
      namei s ((root_dir @ sep # H) @ sep # nm) = Inr (root_loc s @ [H, nm])"
    and "lookup (fs_root s) (root_loc s @ [H, nm]) = map_of ses nm"
proof -
  from lookup_prefix_dir [of "fs_root s" "root_loc s" H "[]"] assms(1)
  have dR: "isdir_at (fs_root s) (root_loc s)"
    by (simp add: isdir_at_iff)
  show n: "namei s (root_dir @ sep # H) = Inr (root_loc s @ [H])"
    by (rule namei_in_root(2) [OF dR assms(2)])
  show d: "isdir_at (fs_root s) (root_loc s @ [H])"
    using assms(1) by (simp add: isdir_at_iff)
  show "valid_name nm \<Longrightarrow>
      namei s ((root_dir @ sep # H) @ sep # nm) = Inr (root_loc s @ [H, nm])"
    using namei_name [OF n d, of nm] by simp
  show "lookup (fs_root s) (root_loc s @ [H, nm]) = map_of ses nm"
    using lookup_in_dir [OF assms(1), of nm "[]"] by (simp split: option.splits)
qed

lemma foldr_max_le: "foldr max xs (0::nat) \<le> l \<longleftrightarrow> (\<forall>x\<in>set xs. x \<le> l)"
  by (induction xs) auto

lemma node_depth_Dir:
  "node_depth (Dir es) \<le> Suc l \<longleftrightarrow> list_all (\<lambda>e. node_depth (snd e) \<le> l) es"
  by (auto simp: foldr_max_le list_all_iff)

lemma copy_entries_all:
  "list_all (\<lambda>e. node_depth (snd e) \<le> l) es \<Longrightarrow> copy_entries l es = (True, es)"
proof (induction l es rule: copy_entries.induct)
  case (1 l)
  show ?case by simp
next
  case (2 l nm c es)
  then show ?case by simp
next
  case (3 nm ds es)
  then show ?case by simp
next
  case (4 l nm ds es)
  from "4.prems" have d: "node_depth (Dir ds) \<le> Suc l"
    and r: "list_all (\<lambda>e. node_depth (snd e) \<le> Suc l) es"
    by simp_all
  from d have "list_all (\<lambda>e. node_depth (snd e) \<le> l) ds"
    by (simp only: node_depth_Dir)
  from "4.IH"(1) [OF this] have a: "copy_entries l ds = (True, ds)" .
  from "4.IH"(2) [OF a [symmetric] _ r] have "copy_entries (Suc l) es = (True, es)"
    by simp
  with a show ?case by simp
qed

lemma snapshot_copy_entry:
  assumes H: "lookup (fs_root s) (root_loc s @ [H]) = Some (Dir ses)"
    and N: "lookup (fs_root s) (root_loc s @ [N]) = Some (Dir des)"
    and v: "valid_name H" "valid_name N" "valid_name nm" and HN: "H \<noteq> N"
    and n: "map_of ses nm = Some n" and new: "map_of des nm = None"
    and depth: "node_depth n \<le> levels"
  shows "\<exists>s'. (if isdir s (join (root_dir @ sep # H) nm)
               then copytree levels (join (root_dir @ sep # H) nm) (join (root_dir @ sep # N) nm) s
               else copy2 (join (root_dir @ sep # H) nm) (join (root_dir @ sep # N) nm) s)
             = (Inr (), s')
    \<and> cwd s' = cwd s
    \<and> lookup (fs_root s') (root_loc s @ [H]) = Some (Dir ses)
    \<and> lookup (fs_root s') (root_loc s @ [N]) = Some (Dir (des @ [(nm, n)]))"
proof -
  let ?src = "root_dir @ sep # H" and ?dst = "root_dir @ sep # N"
  let ?L = "root_loc s @ [N, nm]"
  note sH = path_with_name_shape [OF v(1), of root_dir]
  note sN = path_with_name_shape [OF v(2), of root_dir]
  have js: "join ?src nm = ?src @ sep # nm" and jd: "join ?dst nm = ?dst @ sep # nm"
    using sH sN v(3) by (simp_all add: join_name)
  note rH = namei_revision [OF H v(1)]
  note rN = namei_revision [OF N v(2)]
  have src_item: "stat s (?src @ sep # nm) = Inr n"
    using rH(3) [OF v(3)] rH(4) n by (simp add: stat_def)
  have dst_name: "namei s (?dst @ sep # nm) = Inr ?L"
    using rN(3) [OF v(3)] .
  have dst_new: "lookup (fs_root s) ?L = None"
    using rN(4) new by simp
  have frame: "lookup (put t ?L x) (root_loc s @ [H]) = lookup t (root_loc s @ [H])" for t x
    using HN by (intro lookup_put_frame) auto
  show ?thesis
  proof (cases n)
    case (File c)
    define s' where "s' = s\<lparr>fs_root := put (fs_root s) ?L (File c)\<rparr>"
    have nd: "\<not> isdir s (?src @ sep # nm)" "\<not> isdir s (?dst @ sep # nm)"
      "\<not> path_exists s (?dst @ sep # nm)"
      using src_item File dst_name dst_new
      by (simp_all add: isdir_def path_exists_def stat_def)
    have "copy2 (?src @ sep # nm) (?dst @ sep # nm) s = (Inr (), s')"
      using nd src_item File dst_name dst_new
      by (simp add: copy2_def read_bytes_def write_file_def s'_def)
    moreover have "lookup (fs_root s') (root_loc s @ [N]) = Some (Dir (des @ [(nm, n)]))"
      using lookup_put_child [OF N, of nm "File c"] File new
      by (simp add: s'_def update_new)
    moreover have "lookup (fs_root s') (root_loc s @ [H]) = Some (Dir ses)"
      using H by (simp add: s'_def frame)
    moreover have "cwd s' = cwd s"
      by (simp add: s'_def)
    ultimately show ?thesis
      using nd(1) by (simp add: js jd)
  next
    case (Dir ces)
    define s1 where "s1 = s\<lparr>fs_root := put (fs_root s) ?L (Dir [])\<rparr>"
    define s' where "s' = s1\<lparr>fs_root := put (fs_root s1) ?L (Dir ces)\<rparr>"
    from depth Dir have l0: "levels \<noteq> 0"
      by auto
    with depth Dir have "node_depth (Dir ces) \<le> Suc (levels - 1)"
      by simp
    then have ce: "copy_entries (levels - 1) ces = (True, ces)"
      by (simp only: node_depth_Dir copy_entries_all)
    have R1: "root_loc s1 = root_loc s"
      by (simp add: s1_def root_loc_def)
    have d: "isdir s (?src @ sep # nm)"
      using src_item Dir by (simp add: isdir_def)
    have sc: "scandir s (?src @ sep # nm) = Inr ces"
      using src_item Dir by (simp add: scandir_def)
    have pe: "path_exists s ?dst"
      using rN(1) N by (simp add: path_exists_def stat_def)
    have mk: "makedirs (?dst @ sep # nm) False s = (Inr (), s1)"
      using makedirs_existing_parent [OF v(3) sN [THEN conjunct1] sN [THEN conjunct2] pe]
        makedirs_leaf_new [OF dst_name dst_new]
      by (simp add: s1_def)
    have N1: "lookup (fs_root s1) (root_loc s1 @ [N]) = Some (Dir (AList.update nm (Dir []) des))"
      using lookup_put_child [OF N, of nm "Dir []"] by (simp add: s1_def R1)
    have n1: "namei s1 (?dst @ sep # nm) = Inr ?L"
      using namei_revision(3) [OF N1 v(2) v(3)] by (simp add: R1)
    have "copytree levels (?src @ sep # nm) (?dst @ sep # nm) s = (Inr (), s')"
      using sc mk n1 l0 ce by (simp add: copytree_def s'_def)
    moreover have "lookup (fs_root s') (root_loc s @ [N]) = Some (Dir (des @ [(nm, n)]))"
      using lookup_put_child [OF N1 [unfolded R1], of nm "Dir ces"] Dir new
      by (simp add: s'_def update_new update_replace_last)
    moreover have "lookup (fs_root s') (root_loc s @ [H]) = Some (Dir ses)"
      using H by (simp add: s'_def s1_def frame)
    moreover have "cwd s' = cwd s"
      by (simp add: s'_def s1_def)
    ultimately show ?thesis
      using d by (simp add: js jd)
  qed
qed

lemma snapshot_loop_copies:
  assumes "lookup (fs_root s) (root_loc s @ [H]) = Some (Dir (done @ todo))"
    and "lookup (fs_root s) (root_loc s @ [N]) = Some (Dir done)"
    and "valid_name H" and "valid_name N" and "H \<noteq> N"
    and "distinct (map fst (done @ todo))" and "list_all valid_name (map fst todo)"
    and "list_all (\<lambda>e. node_depth (snd e) \<le> levels) todo"
  shows "\<exists>s'. snapshot_loop levels (root_dir @ sep # H) (root_dir @ sep # N) (map fst todo) s = (Inr (), s')
    \<and> cwd s' = cwd s
    \<and> lookup (fs_root s') (root_loc s @ [H]) = Some (Dir (done @ todo))
    \<and> lookup (fs_root s') (root_loc s @ [N]) = Some (Dir (done @ todo))"
  using assms
proof (induction todo arbitrary: s "done")
  case Nil
  then show ?case by simp
next
  case (Cons e todo)
  obtain nm n where e: "e = (nm, n)" by (cases e)
  from Cons.prems(6) e have fresh: "nm \<notin> fst ` set done" "nm \<notin> fst ` set todo"
    by auto
  then have new: "map_of done nm = None"
    by (simp add: map_of_eq_None_iff)
  then have n: "map_of (done @ e # todo) nm = Some n"
    using e by (simp add: map_add_def)
  from Cons.prems(7) e have v: "valid_name nm" by simp
  from Cons.prems(8) e have dn: "node_depth n \<le> levels"
    by simp
  from snapshot_copy_entry [OF Cons.prems(1,2,3,4) v Cons.prems(5) n new dn]
  obtain s1 where step: "(if isdir s (join (root_dir @ sep # H) nm)
        then copytree levels (join (root_dir @ sep # H) nm) (join (root_dir @ sep # N) nm) s
        else copy2 (join (root_dir @ sep # H) nm) (join (root_dir @ sep # N) nm) s) = (Inr (), s1)"
    and c1: "cwd s1 = cwd s"
    and H1: "lookup (fs_root s1) (root_loc s @ [H]) = Some (Dir (done @ e # todo))"
    and N1: "lookup (fs_root s1) (root_loc s @ [N]) = Some (Dir (done @ [(nm, n)]))"
    by blast
  have R1: "root_loc s1 = root_loc s"
    using c1 by (simp add: root_loc_def)
  have "\<exists>s'. snapshot_loop levels (root_dir @ sep # H) (root_dir @ sep # N) (map fst todo) s1
        = (Inr (), s')
      \<and> cwd s' = cwd s1
      \<and> lookup (fs_root s') (root_loc s1 @ [H]) = Some (Dir ((done @ [e]) @ todo))
      \<and> lookup (fs_root s') (root_loc s1 @ [N]) = Some (Dir ((done @ [e]) @ todo))"
    using H1 N1 Cons.prems(3,4,5,6,7,8) e
    by (intro Cons.IH) (simp_all add: R1)
  then show ?case
    using step c1 e by (auto simp: R1)
qed

subsection \<open>Paths of several names\<close>

lemma sub_path_simps [simp]:
  "sub_path d [] = d" "sub_path d (ns @ [n]) = sub_path d ns @ sep # n"
  by (simp_all add: sub_path_def)

lemma sub_path_prepend: "sub_path (a @ b) ns = a @ sub_path b ns"
  by (induction ns arbitrary: b) (simp_all add: sub_path_def)

lemma sub_path_Cons: "sub_path d (n # ns) = d @ sep # sub_path n ns"
  using sub_path_prepend [of "d @ [sep]" n ns] by (simp add: sub_path_def)

lemma join_sep_sub_path: "join_sep (d # ns) = sub_path d ns"
proof (induction ns arbitrary: d)
  case Nil
  show ?case by simp
next
  case (Cons n ns)
  then show ?case
    by (simp add: sub_path_Cons)
qed

lemma sub_path_shape:
  assumes "d \<noteq> []" and "last d \<noteq> sep" and "list_all valid_name ns"
  shows "sub_path d ns \<noteq> [] \<and> last (sub_path d ns) \<noteq> sep"
  using assms(3)
proof (induction ns rule: rev_induct)
  case Nil
  with assms show ?case by simp
next
  case (snoc n ns)
  then show ?case
    using path_with_name_shape [of n "sub_path d ns"] by simp
qed

lemma split_sep_sub_path:
  assumes "list_all (\<lambda>n. sep \<notin> set n) ns"
  shows "split_sep (sub_path d ns) = split_sep d @ ns"
  using assms
proof (induction ns rule: rev_induct)
  case Nil
  show ?case by simp
next
  case (snoc n ns)
  then show ?case
    by (simp add: split_sep_append split_sep_name del: split_sep.simps)
qed

lemma foldl_norm_comp_names:
  assumes "list_all valid_name ns"
  shows "foldl (norm_comp 0) acc ns = acc @ ns"
  using assms
proof (induction ns arbitrary: acc)
  case Nil
  show ?case by simp
next
  case (Cons n ns)
  then show ?case
    by (simp add: norm_comp_def valid_name_def)
qed

lemma safe_path_names:
  assumes "ns \<noteq> []" and "list_all valid_name ns"
  shows "safe_path (join_sep ns) = sub_path root_dir ns"
proof -
  obtain n ms where ns: "ns = n # ms"
    using assms(1) by (cases ns) auto
  have v: "valid_name n" "list_all valid_name ms"
    using assms(2) ns by simp_all
  have nosep: "list_all (\<lambda>n. sep \<notin> set n) ns"
    using assms(2) by (simp add: list_all_iff valid_name_def)
  have p: "join_sep ns = sub_path n ms"
    by (simp add: ns join_sep_sub_path)
  have "sub_path n ms \<noteq> [] \<and> hd (sub_path n ms) \<noteq> sep"
    using v(1) sub_path_prepend [of n "[]" ms] by (cases n) (auto simp: valid_name_def)
  then have j: "join STORAGE_ROOT (join_sep ns) = sub_path STORAGE_ROOT ns"
    unfolding p by (simp add: join_def STORAGE_ROOT_shape ns sub_path_Cons)
  have i: "initial_slashes (sub_path STORAGE_ROOT ns) = 0"
    by (simp add: ns sub_path_Cons initial_slashes_def STORAGE_ROOT_def sep_def)
  have s: "split_sep (sub_path STORAGE_ROOT ns) = [''.'', ''decisions''] @ ns"
    using nosep by (simp add: split_sep_sub_path STORAGE_ROOT_shape del: split_sep.simps)
  have f: "foldl (norm_comp 0) [] ([''.'', ''decisions''] @ ns) = ''decisions'' # ns"
    using foldl_norm_comp_names [OF assms(2), of "[''decisions'']"]
    by (simp add: norm_comp_def)
  have "normpath (sub_path STORAGE_ROOT ns) = sub_path ''decisions'' ns"
    unfolding normpath_def Let_def i s f
    by (simp add: join_sep_sub_path ns sub_path_Cons STORAGE_ROOT_def)
  then show ?thesis
    by (simp add: safe_path_def j root_dir_eq)
qed

lemma namei_sub_path:
  assumes "namei st d = Inr loc" and "list_all valid_name ns"
    and "isdir_at (fs_root st) (loc @ butlast ns)"
  shows "namei st (sub_path d ns) = Inr (loc @ ns)"
  using assms(2,3)
proof (induction ns rule: rev_induct)
  case Nil
  with assms(1) show ?case by simp
next
  case (snoc n ns)
  from snoc.prems have d: "isdir_at (fs_root st) (loc @ ns)" and v: "valid_name n"
    "list_all valid_name ns"
    by simp_all
  have "isdir_at (fs_root st) (loc @ butlast ns)"
  proof (cases "ns = []")
    case True
    with d show ?thesis by simp
  next
    case False
    with isdir_at_butlast [OF d] show ?thesis
      by (simp add: butlast_append)
  qed
  from snoc.IH [OF v(2) this] have "namei st (sub_path d ns) = Inr (loc @ ns)" .
  from namei_name [OF this d v(1)] show ?case
    by simp
qed

lemma namei_sub_path_conv:
  assumes "namei st (sub_path d ns) = Inr loc" and "list_all valid_name ns" and "d \<noteq> []"
    and "last d \<noteq> sep"
  shows "\<exists>l. namei st d = Inr l \<and> loc = l @ ns"
  using assms(1,2)
proof (induction ns arbitrary: loc rule: rev_induct)
  case Nil
  then show ?case by simp
next
  case (snoc n ns)
  from snoc.prems have v: "valid_name n" "list_all valid_name ns"
    by simp_all
  from sub_path_shape [OF assms(3,4) v(2)] have "sub_path d ns \<noteq> []"
    by simp
  from namei_name_conv [OF _ v(1) this, of st loc] snoc.prems(1)
  obtain l where l: "namei st (sub_path d ns) = Inr l" "loc = l @ [n]"
    by auto
  from snoc.IH [OF l(1) v(2)] l(2) show ?case
    by auto
qed

lemma isdir_at_prefix: "isdir_at t (a @ b) \<Longrightarrow> isdir_at t a"
proof (induction b rule: rev_induct)
  case Nil
  then show ?case by simp
next
  case (snoc x xs)
  from isdir_at_butlast [OF snoc.prems] have "isdir_at t (a @ xs)"
    by (simp add: butlast_append)
  then show ?case
    by (rule snoc.IH)
qed

text \<open>What a new empty directory changes in a tree.\<close>

lemma put_new_dir:
  assumes "loc \<noteq> []" and "isdir_at t (butlast loc)" and "lookup t loc = None"
  shows "isdir_at (put t loc (Dir [])) loc"
    and "isdir_at t q \<Longrightarrow> isdir_at (put t loc (Dir [])) q"
    and "lookup t q = Some (File x) \<Longrightarrow> lookup (put t loc (Dir [])) q = Some (File x)"
    and "lookup (put t loc (Dir [])) q \<noteq> None \<Longrightarrow> q = loc \<or> lookup t q \<noteq> None"
    and "\<not> prefix q loc \<Longrightarrow> lookup (put t loc (Dir [])) q = lookup t q"
proof -
  note same = lookup_put_same [OF assms(1,2), of "Dir []"]
  show "isdir_at (put t loc (Dir [])) loc"
    using same by (simp add: isdir_at_iff)
  have nd: "\<not> isdir_at t loc"
    using assms(3) by (simp add: isdir_at_iff)
  have below: "lookup (put t loc (Dir [])) (loc @ r) = None" if "r \<noteq> []" for r
    using that same by (cases r) (simp_all add: lookup_append)
  have below0: "lookup t (loc @ r) = None" for r
    using assms(3) by (simp add: lookup_append)
  show "isdir_at (put t loc (Dir [])) q" if "isdir_at t q"
  proof (cases "prefix loc q")
    case True
    with that below0 show ?thesis
      by (auto simp: prefix_def isdir_at_iff)
  next
    case False
    from that obtain es where "lookup t q = Some (Dir es)"
      by (auto simp: isdir_at_iff)
    from dir_put_dir [OF this nd] show ?thesis
      by (simp add: isdir_at_iff)
  qed
  show "lookup (put t loc (Dir [])) q = Some (File x)" if f: "lookup t q = Some (File x)"
  proof (cases "prefix loc q \<or> prefix q loc")
    case False
    then show ?thesis
      using f by (simp add: lookup_put_frame)
  next
    case True
    then show ?thesis
    proof
      assume "prefix loc q"
      with f below0 show ?thesis
        by (auto simp: prefix_def)
    next
      assume "prefix q loc"
      then obtain r where r: "loc = q @ r"
        by (auto simp: prefix_def)
      with f assms(3) have "r \<noteq> []"
        by auto
      then obtain c cs where "r = c # cs"
        by (cases r) auto
      with r f assms(2,3) show ?thesis
        using lookup_prefix_dir [of t q c "butlast cs @ [x']" for x']
        by (cases cs rule: rev_cases) (auto simp: isdir_at_iff lookup_append butlast_append)
    qed
  qed
  show "q = loc \<or> lookup t q \<noteq> None" if e: "lookup (put t loc (Dir [])) q \<noteq> None"
  proof (cases "prefix loc q \<or> prefix q loc")
    case False
    then show ?thesis
      using e by (simp add: lookup_put_frame)
  next
    case True
    then show ?thesis
    proof
      assume "prefix loc q"
      then obtain r where "q = loc @ r"
        by (auto simp: prefix_def)
      with e below [of r] show ?thesis
        by (cases "r = []") auto
    next
      assume "prefix q loc"
      then obtain r where r: "loc = q @ r"
        by (auto simp: prefix_def)
      show ?thesis
      proof (cases "r = []")
        case True
        with r show ?thesis by simp
      next
        case False
        then have "q @ butlast r = butlast loc"
          using r by (simp add: butlast_append)
        with assms(2) have "isdir_at t (q @ butlast r)"
          by simp
        then have "lookup t q \<noteq> None"
          by (auto simp: isdir_at_iff lookup_append split: option.splits)
        then show ?thesis by simp
      qed
    qed
  qed
  show "lookup (put t loc (Dir [])) q = lookup t q" if n: "\<not> prefix q loc"
  proof (cases "prefix loc q")
    case False
    with n show ?thesis
      by (simp add: lookup_put_frame)
  next
    case True
    then obtain r where r: "q = loc @ r"
      by (auto simp: prefix_def)
    with n have "r \<noteq> []"
      by auto
    with below [of r] below0 [of r] r show ?thesis
      by simp
  qed
qed

text \<open>
  \<^verbatim>\<open>os.makedirs\<close> on a path of names below the storage root, when no file is in the way:
  it succeeds, the directories of the path exist afterwards, what existed stays, and
  nothing else is made.
\<close>

lemma makedirs_chain:
  assumes "isdir_at (fs_root st) (root_loc st)" and "list_all valid_name ns"
    and "\<forall>k \<le> length ns. \<not> is_file_at (fs_root st) (root_loc st @ take k ns)"
  shows "\<exists>st'. makedirs (sub_path root_dir ns) True st = (Inr (), st') \<and> cwd st' = cwd st
    \<and> isdir_at (fs_root st') (root_loc st @ ns)
    \<and> (\<forall>q. isdir_at (fs_root st) q \<longrightarrow> isdir_at (fs_root st') q)
    \<and> (\<forall>q x. lookup (fs_root st) q = Some (File x) \<longrightarrow> lookup (fs_root st') q = Some (File x))
    \<and> (\<forall>q. lookup (fs_root st') q \<noteq> None \<longrightarrow>
          lookup (fs_root st) q \<noteq> None \<or> (\<exists>k \<le> length ns. q = root_loc st @ take k ns))
    \<and> (\<forall>q. \<not> prefix q (root_loc st @ ns) \<longrightarrow> lookup (fs_root st') q = lookup (fs_root st) q)"
  using assms(2,3)
proof (induction ns rule: rev_induct)
  case Nil
  from makedirs_root_dir [OF assms(1)] assms(1) show ?case
    by simp
next
  case (snoc n ns)
  let ?R = "root_loc st" and ?P = "sub_path root_dir ns"
  let ?L = "root_loc st @ ns @ [n]"
  from snoc.prems(1) have v: "valid_name n" "list_all valid_name ns"
    by simp_all
  have nf: "\<forall>k \<le> length ns. \<not> is_file_at (fs_root st) (?R @ take k ns)"
  proof (intro allI impI)
    fix k assume "k \<le> length ns"
    with snoc.prems(2) [rule_format, of k] show "\<not> is_file_at (fs_root st) (?R @ take k ns)"
      by simp
  qed
  from snoc.prems(2) [rule_format, of "Suc (length ns)"]
  have nfL: "\<not> is_file_at (fs_root st) ?L"
    by simp
  note sh = sub_path_shape [OF root_dir_shape(1,2) v(2)]
  from snoc.IH [OF v(2) nf]
  obtain st1 where mk1: "makedirs ?P True st = (Inr (), st1)" and c1: "cwd st1 = cwd st"
    and d1: "isdir_at (fs_root st1) (?R @ ns)"
    and dd1: "\<And>q. isdir_at (fs_root st) q \<Longrightarrow> isdir_at (fs_root st1) q"
    and ff1: "\<And>q x. lookup (fs_root st) q = Some (File x) \<Longrightarrow> lookup (fs_root st1) q = Some (File x)"
    and ee1: "\<And>q. lookup (fs_root st1) q \<noteq> None \<Longrightarrow>
          lookup (fs_root st) q \<noteq> None \<or> (\<exists>k \<le> length ns. q = ?R @ take k ns)"
    and gg1: "\<And>q. \<not> prefix q (?R @ ns) \<Longrightarrow> lookup (fs_root st1) q = lookup (fs_root st) q"
    by blast
  have pf: "\<not> prefix q (?R @ ns)" if "\<not> prefix q ?L" for q
    using that prefix_prefix [of q "?R @ ns" "[n]"] by auto
  have R1: "root_loc st1 = ?R"
    using c1 by (simp add: root_loc_def)
  have tk: "\<exists>k \<le> length (ns @ [n]). q = ?R @ take k (ns @ [n])"
    if "\<exists>k \<le> length ns. q = ?R @ take k ns" for q
  proof -
    from that obtain k where "k \<le> length ns" "q = ?R @ take k ns"
      by blast
    then have "k \<le> length (ns @ [n]) \<and> q = ?R @ take k (ns @ [n])"
      by simp
    then show ?thesis by blast
  qed
  have tL: "\<exists>k \<le> length (ns @ [n]). ?L = ?R @ take k (ns @ [n])"
    by (rule exI [of _ "Suc (length ns)"]) simp
  have split: "makedirs_split (?P @ sep # n) = (?P, n)"
    using v(1) path_split_name [OF v(1) sh [THEN conjunct1] sh [THEN conjunct2]]
    by (simp add: makedirs_split_def valid_name_def)
  text \<open>The last step in a state \<open>s\<close> in which the directory above exists.\<close>
  have leaf: "\<exists>st'. makedirs_leaf (?P @ sep # n) True s = (Inr (), st') \<and> cwd st' = cwd s
      \<and> isdir_at (fs_root st') ?L
      \<and> (\<forall>q. isdir_at (fs_root s) q \<longrightarrow> isdir_at (fs_root st') q)
      \<and> (\<forall>q x. lookup (fs_root s) q = Some (File x) \<longrightarrow> lookup (fs_root st') q = Some (File x))
      \<and> (\<forall>q. lookup (fs_root st') q \<noteq> None \<longrightarrow> lookup (fs_root s) q \<noteq> None \<or> q = ?L)
      \<and> (\<forall>q. \<not> prefix q ?L \<longrightarrow> lookup (fs_root st') q = lookup (fs_root s) q)"
    if cs: "cwd s = cwd st" and ds: "isdir_at (fs_root s) (?R @ ns)"
      and fs: "\<not> is_file_at (fs_root s) ?L" for s
  proof -
    have Rs: "root_loc s = ?R"
      using cs by (simp add: root_loc_def)
    have "isdir_at (fs_root s) (?R @ butlast ns)"
    proof (cases "ns = []")
      case True
      with ds show ?thesis by simp
    next
      case False
      with isdir_at_butlast [OF ds] show ?thesis
        by (simp add: butlast_append)
    qed
    moreover have "isdir_at (fs_root s) ?R"
      using ds by (rule isdir_at_prefix)
    ultimately have nP: "namei s ?P = Inr (?R @ ns)"
      using namei_sub_path [OF _ v(2), of s root_dir ?R] namei_storage_root(2) [of s]
      by (simp add: Rs)
    from namei_name [OF nP ds v(1)] have nL: "namei s (?P @ sep # n) = Inr ?L"
      by simp
    show ?thesis
    proof (cases "lookup (fs_root s) ?L")
      case None
      have b: "butlast ?L = ?R @ ns"
        by (simp add: butlast_append)
      have "?L \<noteq> []" by simp
      note p = put_new_dir [OF this ds [folded b] None]
      define s' where "s' = s\<lparr>fs_root := put (fs_root s) ?L (Dir [])\<rparr>"
      have m: "makedirs_leaf (?P @ sep # n) True s = (Inr (), s')"
        unfolding s'_def by (rule makedirs_leaf_new [OF nL None])
      have c: "cwd s' = cwd s"
        by (simp add: s'_def)
      have a: "isdir_at (fs_root s') ?L"
        using p(1) by (simp add: s'_def)
      have d: "isdir_at (fs_root s') q" if "isdir_at (fs_root s) q" for q
        using p(2) [OF that] by (simp add: s'_def)
      have f: "lookup (fs_root s') q = Some (File x)" if "lookup (fs_root s) q = Some (File x)" for q x
        using p(3) [OF that] by (simp add: s'_def)
      have e: "lookup (fs_root s) q \<noteq> None \<or> q = ?L" if "lookup (fs_root s') q \<noteq> None" for q
        using p(4) [of q] that by (auto simp: s'_def)
      have g: "lookup (fs_root s') q = lookup (fs_root s) q" if "\<not> prefix q ?L" for q
        using p(5) [OF that] by (simp add: s'_def)
      from m c a d f e g show ?thesis
        by blast
    next
      case (Some x)
      with fs obtain es where "lookup (fs_root s) ?L = Some (Dir es)"
        by (cases x) (auto simp: is_file_at_def)
      then have "isdir s (?P @ sep # n)" and "isdir_at (fs_root s) ?L"
        using nL by (simp_all add: isdir_def stat_def isdir_at_iff)
      with makedirs_leaf_existing_dir [of s "?P @ sep # n"] show ?thesis
        by auto
    qed
  qed
  show ?case
  proof (cases "path_exists st ?P")
    case True
    then obtain loc where "namei st ?P = Inr loc" and ex: "lookup (fs_root st) loc \<noteq> None"
      by (auto simp: path_exists_def stat_def split: sum.splits option.splits)
    from namei_sub_path_conv [OF this(1) v(2) root_dir_shape(1,2)] namei_storage_root(2) [OF assms(1)]
    have "loc = ?R @ ns"
      by simp
    with ex nf [rule_format, of "length ns"] have ds: "isdir_at (fs_root st) (?R @ ns)"
      by (auto simp: is_file_at_def isdir_at_def split: fnode.splits)
    from leaf [OF refl ds nfL]
    obtain st' where l: "makedirs_leaf (?P @ sep # n) True st = (Inr (), st')" "cwd st' = cwd st"
      "isdir_at (fs_root st') ?L"
      "\<And>q. isdir_at (fs_root st) q \<Longrightarrow> isdir_at (fs_root st') q"
      "\<And>q x. lookup (fs_root st) q = Some (File x) \<Longrightarrow> lookup (fs_root st') q = Some (File x)"
      "\<And>q. lookup (fs_root st') q \<noteq> None \<Longrightarrow> lookup (fs_root st) q \<noteq> None \<or> q = ?L"
      "\<And>q. \<not> prefix q ?L \<Longrightarrow> lookup (fs_root st') q = lookup (fs_root st) q"
      by blast
    have "makedirs (sub_path root_dir (ns @ [n])) True st = (Inr (), st')"
      using makedirs_existing_parent [OF v(1) sh [THEN conjunct1] sh [THEN conjunct2] True, of True] l(1)
      by simp
    moreover have "lookup (fs_root st) q \<noteq> None \<or> (\<exists>k \<le> length (ns @ [n]). q = ?R @ take k (ns @ [n]))"
      if "lookup (fs_root st') q \<noteq> None" for q
      using l(6) [OF that] tL by auto
    moreover have "lookup (fs_root st') q = lookup (fs_root st) q"
      if "\<not> prefix q (?R @ ns @ [n])" for q
      using l(7) [OF that] .
    ultimately show ?thesis
      using l(2,3,4,5) by auto
  next
    case False
    have n0: "lookup (fs_root st) (?R @ ns) = None"
    proof (rule ccontr)
      assume "lookup (fs_root st) (?R @ ns) \<noteq> None"
      with nf [rule_format, of "length ns"] have ds: "isdir_at (fs_root st) (?R @ ns)"
        by (auto simp: is_file_at_def isdir_at_def split: fnode.splits)
      have "isdir_at (fs_root st) (?R @ butlast ns)"
      proof (cases "ns = []")
        case True
        with ds show ?thesis by simp
      next
        case False
        with isdir_at_butlast [OF ds] show ?thesis
          by (simp add: butlast_append)
      qed
      from namei_sub_path [OF namei_storage_root(2) [OF assms(1)] v(2) this] ds
      have "path_exists st ?P"
        by (auto simp: path_exists_def stat_def isdir_at_iff)
      with False show False by simp
    qed
    have "\<not> is_file_at (fs_root st1) ?L"
    proof
      assume "is_file_at (fs_root st1) ?L"
      then have "lookup (fs_root st1) ?L \<noteq> None"
        by (auto simp: is_file_at_def split: option.splits)
      from ee1 [OF this] show False
      proof
        assume "lookup (fs_root st) ?L \<noteq> None"
        with n0 lookup_append [of "fs_root st" "?R @ ns" "[n]"] show False
          by simp
      next
        assume "\<exists>k \<le> length ns. ?L = ?R @ take k ns"
        then obtain k where k: "ns @ [n] = take k ns"
          by auto
        from arg_cong [OF k, of length] show False
          by simp
      qed
    qed
    from leaf [OF c1 d1 this]
    obtain st' where l: "makedirs_leaf (?P @ sep # n) True st1 = (Inr (), st')" "cwd st' = cwd st1"
      "isdir_at (fs_root st') ?L"
      "\<And>q. isdir_at (fs_root st1) q \<Longrightarrow> isdir_at (fs_root st') q"
      "\<And>q x. lookup (fs_root st1) q = Some (File x) \<Longrightarrow> lookup (fs_root st') q = Some (File x)"
      "\<And>q. lookup (fs_root st') q \<noteq> None \<Longrightarrow> lookup (fs_root st1) q \<noteq> None \<or> q = ?L"
      "\<And>q. \<not> prefix q ?L \<Longrightarrow> lookup (fs_root st') q = lookup (fs_root st1) q"
      by blast
    have ne: "?P \<noteq> []" "n \<noteq> []" "n \<noteq> ''.''"
      using sh v(1) by (simp_all add: valid_name_def)
    have "makedirs (?P @ sep # n) True st = (Inr (), st')"
      using False ne mk1 l(1) by (subst makedirs.simps) (simp add: split)
    then have "makedirs (sub_path root_dir (ns @ [n])) True st = (Inr (), st')"
      by simp
    moreover have "lookup (fs_root st) q \<noteq> None \<or> (\<exists>k \<le> length (ns @ [n]). q = ?R @ take k (ns @ [n]))"
      if "lookup (fs_root st') q \<noteq> None" for q
      using l(6) [OF that] ee1 [of q] tL tk [of q] by auto
    moreover have "lookup (fs_root st') q = lookup (fs_root st) q"
      if "\<not> prefix q (?R @ ns @ [n])" for q
      using l(7) [OF that] gg1 [OF pf [OF that]] by simp
    ultimately show ?thesis
      using l(2,3) c1 dd1 ff1 l(4,5) by auto
  qed
qed

subsection \<open>Writing below directories that are missing\<close>

lemma fs_write_creates:
  assumes "isdir_at (fs_root st) (root_loc st)" and "list_all valid_name (ds @ [f])"
    and "\<forall>k \<le> length ds. \<not> is_file_at (fs_root st) (root_loc st @ take k ds)"
    and "\<not> isdir_at (fs_root st) (root_loc st @ ds @ [f])"
  shows "\<exists>st'. fs_write (join_sep (ds @ [f])) c st = (Inr ([], 201), st') \<and> cwd st' = cwd st
    \<and> isdir_at (fs_root st') (root_loc st @ ds)
    \<and> lookup (fs_root st') (root_loc st @ ds @ [f]) = Some (File c)"
proof -
  let ?R = "root_loc st" and ?P = "sub_path root_dir ds"
  let ?L = "root_loc st @ ds @ [f]"
  from assms(2) have v: "valid_name f" "list_all valid_name ds"
    by simp_all
  note sh = sub_path_shape [OF root_dir_shape(1,2) v(2)]
  have sp: "safe_path (join_sep (ds @ [f])) = ?P @ sep # f"
    using safe_path_names [OF _ assms(2)] by simp
  have dn: "dirname (?P @ sep # f) = ?P"
    using path_split_name [OF v(1) sh [THEN conjunct1] sh [THEN conjunct2]]
    by (simp add: dirname_def)
  from makedirs_chain [OF assms(1) v(2) assms(3)]
  obtain st1 where mk: "makedirs ?P True st = (Inr (), st1)" and c1: "cwd st1 = cwd st"
    and d1: "isdir_at (fs_root st1) (?R @ ds)"
    and dd1: "\<And>q. isdir_at (fs_root st) q \<Longrightarrow> isdir_at (fs_root st1) q"
    and ff1: "\<And>q x. lookup (fs_root st) q = Some (File x) \<Longrightarrow> lookup (fs_root st1) q = Some (File x)"
    and ee1: "\<And>q. lookup (fs_root st1) q \<noteq> None \<Longrightarrow>
          lookup (fs_root st) q \<noteq> None \<or> (\<exists>k \<le> length ds. q = ?R @ take k ds)"
    by blast
  have R1: "root_loc st1 = ?R"
    using c1 by (simp add: root_loc_def)
  have dR1: "isdir_at (fs_root st1) (root_loc st1)"
    using dd1 [OF assms(1)] by (simp add: R1)
  have "isdir_at (fs_root st1) (?R @ butlast ds)"
  proof (cases "ds = []")
    case True
    with d1 show ?thesis by simp
  next
    case False
    with isdir_at_butlast [OF d1] show ?thesis
      by (simp add: butlast_append)
  qed
  from namei_sub_path [OF namei_storage_root(2) [OF dR1] v(2)] this
  have nP: "namei st1 ?P = Inr (?R @ ds)"
    by (simp add: R1)
  from namei_name [OF nP d1 v(1)] have nL: "namei st1 (?P @ sep # f) = Inr ?L"
    by simp
  have nd1: "\<not> isdir_at (fs_root st1) ?L"
  proof
    assume a: "isdir_at (fs_root st1) ?L"
    then have "lookup (fs_root st1) ?L \<noteq> None"
      by (auto simp: isdir_at_iff)
    from ee1 [OF this] show False
    proof
      assume "lookup (fs_root st) ?L \<noteq> None"
      then obtain x where "lookup (fs_root st) ?L = Some x"
        by auto
      with assms(4) obtain y where "lookup (fs_root st) ?L = Some (File y)"
        by (cases x) (auto simp: isdir_at_iff)
      from ff1 [OF this] a show False
        by (simp add: isdir_at_iff)
    next
      assume "\<exists>k \<le> length ds. ?L = ?R @ take k ds"
      then obtain k where k: "ds @ [f] = take k ds"
        by auto
      from arg_cong [OF k, of length] show False
        by simp
    qed
  qed
  define st' where "st' = st1\<lparr>fs_root := put (fs_root st1) ?L (File c)\<rparr>"
  have w: "write_file (?P @ sep # f) c st1 = (Inr (), st')"
    using nL nd1
    by (auto simp: write_file_def st'_def isdir_at_iff split: option.splits fnode.splits)
  have "fs_write (join_sep (ds @ [f])) c st = (Inr ([], 201), st')"
    unfolding fs_write_def sp dn by (simp add: and_then_def mk w return_ok_def)
  moreover have "cwd st' = cwd st"
    by (simp add: st'_def c1)
  moreover have "isdir_at (fs_root st') (?R @ ds)"
  proof -
    from d1 obtain es where "lookup (fs_root st1) (?R @ ds) = Some (Dir es)"
      by (auto simp: isdir_at_iff)
    from dir_put_dir [OF this nd1, of "File c"] show ?thesis
      by (simp add: st'_def isdir_at_iff)
  qed
  moreover have "lookup (fs_root st') ?L = Some (File c)"
  proof -
    have "butlast ?L = ?R @ ds"
      by (simp add: butlast_append)
    with d1 have "isdir_at (fs_root st1) (butlast ?L)"
      by simp
    from lookup_put_same [OF _ this, of "File c"] show ?thesis
      by (simp add: st'_def)
  qed
  ultimately show ?thesis
    by blast
qed

subsection \<open>Listings\<close>

lemma map_result_Inr:
  "map_result f xs = Inr ys \<Longrightarrow> list_all2 (\<lambda>x y. f x = Inr y) xs ys"
proof (induction xs arbitrary: ys)
  case Nil
  then show ?case by simp
next
  case (Cons x xs)
  then show ?case
    by (auto split: sum.splits)
qed

lemma map_result_set:
  "map_result f xs = Inr ys \<Longrightarrow> y \<in> set ys \<Longrightarrow> \<exists>x\<in>set xs. f x = Inr y"
proof (induction xs arbitrary: ys)
  case Nil
  then show ?case by simp
next
  case (Cons x xs)
  then show ?case
    by (auto split: sum.splits)
qed

lemma map_result_all:
  "(\<And>x. x \<in> set xs \<Longrightarrow> \<exists>y. f x = Inr y) \<Longrightarrow> \<exists>ys. map_result f xs = Inr ys"
proof (induction xs)
  case Nil
  show ?case by simp
next
  case (Cons x xs)
  from Cons.prems [of x] obtain y where "f x = Inr y"
    by auto
  moreover from Cons.IH Cons.prems obtain ys where "map_result f xs = Inr ys"
    by auto
  ultimately show ?case
    by simp
qed

lemma sort_key_of_comes_before:
  "sort_key_of a \<le> sort_key_of b \<longleftrightarrow> comes_before a b"
  by (auto simp: sort_key_of_def comes_before_def less_eq_prod_def)

lemma sorted_wrt_comes_before:
  "sorted_wrt comes_before (sort_key sort_key_of ns)"
proof -
  have "sorted (map sort_key_of (sort_key sort_key_of ns))"
    by (rule sorted_sort_key)
  then show ?thesis
    by (simp add: sorted_map sort_key_of_comes_before)
qed

text \<open>
  Where no two entries have the same key, the order of the listing does not depend on the
  order in which the entries were enumerated.
\<close>

lemma sort_key_order_unique:
  assumes "set xs = set ys" and "distinct xs" and "distinct ys"
    and "inj_on sort_key_of (set xs)"
  shows "sort_key sort_key_of xs = sort_key sort_key_of ys"
proof -
  let ?f = sort_key_of
  have "map ?f (sort_key ?f xs) = map ?f (sort_key ?f ys)"
  proof (rule sorted_distinct_set_unique)
    show "sorted (map ?f (sort_key ?f xs))" "sorted (map ?f (sort_key ?f ys))"
      by (rule sorted_sort_key)+
    show "distinct (map ?f (sort_key ?f xs))"
      using assms(2,4) by (simp add: distinct_map)
    show "distinct (map ?f (sort_key ?f ys))"
      using assms(1,3,4) by (simp add: distinct_map)
    show "set (map ?f (sort_key ?f xs)) = set (map ?f (sort_key ?f ys))"
      using assms(1) by simp
  qed
  moreover have "set (sort_key ?f xs) \<union> set (sort_key ?f ys) = set xs"
    using assms(1) by simp
  ultimately show ?thesis
    using assms(4) by (metis inj_on_map_eq_map)
qed

lemma build_tree_ordered_aux:
  "build_tree levels st root_path rel_path = Inr ns \<Longrightarrow> ordered_listing ns"
proof (induction levels arbitrary: root_path rel_path ns)
  case 0
  then show ?case by simp
next
  case (Suc levels)
  let ?f = "\<lambda>(nm, n). case n of
        File c \<Rightarrow> Inr (Node nm (join rel_path nm) False (Some (length c)) None)
      | Dir es' \<Rightarrow>
          (case build_tree levels st (join root_path nm) (join rel_path nm) of
             Inl e \<Rightarrow> Inl e
           | Inr ch \<Rightarrow> Inr (Node nm (join rel_path nm) True None (Some ch)))"
  show ?case
  proof (cases "scandir st root_path")
    case (Inl e)
    with Suc.prems have "ns = []"
      by (simp split: if_splits)
    then show ?thesis
      by (simp add: ordered_listing_def)
  next
    case (Inr es)
    with Suc.prems obtain nodes where m: "map_result ?f es = Inr nodes"
      and ns: "ns = sort_key sort_key_of nodes"
      by (auto split: sum.splits)
    have "ordered_node y" if "y \<in> set nodes" for y
    proof -
      from map_result_set [OF m that] obtain x where "x \<in> set es" and fx: "?f x = Inr y"
        by blast
      obtain nm n where x: "x = (nm, n)"
        by (cases x)
      show ?thesis
      proof (cases n)
        case (File c)
        with fx x show ?thesis by auto
      next
        case (Dir es')
        with fx x obtain ch
          where ch: "build_tree levels st (join root_path nm) (join rel_path nm) = Inr ch"
            and y: "y = Node nm (join rel_path nm) True None (Some ch)"
          by (auto split: sum.splits)
        from Suc.IH [OF ch] y show ?thesis
          by (simp add: ordered_listing_def)
      qed
    qed
    then have "list_all ordered_node ns"
      by (simp add: ns list_all_iff)
    with sorted_wrt_comes_before [of nodes] show ?thesis
      by (simp add: ns ordered_listing_def)
  qed
qed

lemma list_all2_map_eq:
  "list_all2 (\<lambda>x y. g y = h x) xs ys \<Longrightarrow> map g ys = map h xs"
  by (induction rule: list_all2_induct) auto

lemma build_tree_returns:
  assumes "namei st root_path = Inr loc" and "lookup (fs_root st) loc = Some (Dir es)"
    and "fs_ok (Dir es)" and "node_depth (Dir es) \<le> levels"
    and "root_path \<noteq> []" and "last root_path \<noteq> sep"
  shows "\<exists>ns. build_tree levels st root_path rel_path = Inr ns \<and> length ns = length es
    \<and> set (map (\<lambda>n. (name n, isDirectory n)) ns)
        = set (map (\<lambda>(nm, x). (nm, case x of Dir es' \<Rightarrow> True | File c \<Rightarrow> False)) es)"
  using assms
proof (induction levels arbitrary: root_path rel_path loc es)
  case 0
  then show ?case by simp
next
  case (Suc levels)
  let ?f = "\<lambda>(nm, n). case n of
        File c \<Rightarrow> Inr (Node nm (join rel_path nm) False (Some (length c)) None)
      | Dir es' \<Rightarrow>
          (case build_tree levels st (join root_path nm) (join rel_path nm) of
             Inl e \<Rightarrow> Inl e
           | Inr ch \<Rightarrow> Inr (Node nm (join rel_path nm) True None (Some ch)))"
  let ?g = "\<lambda>n. (name n, isDirectory n)"
  let ?h = "\<lambda>(nm, x). (nm, case x of Dir es' \<Rightarrow> True | File c \<Rightarrow> False)"
  have sc: "scandir st root_path = Inr es"
    using Suc.prems(1,2) by (simp add: scandir_def stat_def)
  have dl: "isdir_at (fs_root st) loc"
    using Suc.prems(2) by (simp add: isdir_at_iff)
  from Suc.prems(4) have depth: "list_all (\<lambda>e. node_depth (snd e) \<le> levels) es"
    by (simp only: node_depth_Dir)
  have step: "\<exists>y. ?f x = Inr y \<and> ?g y = ?h x" if x: "x \<in> set es" for x
  proof -
    obtain nm n where xe: "x = (nm, n)"
      by (cases x)
    from x xe Suc.prems(3) have v: "valid_name nm" and ok: "fs_ok n"
      and m: "map_of es nm = Some n"
      by (auto simp: list_all_iff)
    show ?thesis
    proof (cases n)
      case (File c)
      with xe show ?thesis by simp
    next
      case (Dir es')
      have j: "join root_path nm = root_path @ sep # nm"
        using v Suc.prems(5,6) by (simp add: join_name)
      have "namei st (join root_path nm) = Inr (loc @ [nm])"
        unfolding j by (rule namei_name [OF Suc.prems(1) dl v])
      moreover have "lookup (fs_root st) (loc @ [nm]) = Some (Dir es')"
        using lookup_in_dir [OF Suc.prems(2), of nm "[]"] m Dir by simp
      moreover have "fs_ok (Dir es')"
        using ok Dir by simp
      moreover have "node_depth (Dir es') \<le> levels"
        using depth x xe Dir by (auto simp: list_all_iff)
      moreover have "join root_path nm \<noteq> []" "last (join root_path nm) \<noteq> sep"
        unfolding j using path_with_name_shape [OF v, of root_path] by simp_all
      ultimately obtain ch
        where "build_tree levels st (join root_path nm) (join rel_path nm) = Inr ch"
        using Suc.IH [of "join root_path nm" "loc @ [nm]" es' "join rel_path nm"] by blast
      with xe Dir show ?thesis by simp
    qed
  qed
  then obtain nodes where nodes: "map_result ?f es = Inr nodes"
    using map_result_all [of es ?f] by blast
  have "list_all2 (\<lambda>x y. ?g y = ?h x) es nodes"
  proof (rule list.rel_mono_strong [OF map_result_Inr [OF nodes]])
    fix x y assume "x \<in> set es" "?f x = Inr y"
    with step [of x] show "?g y = ?h x"
      by auto
  qed
  from list_all2_map_eq [OF this] have "map ?g nodes = map ?h es" .
  then have "set (map ?g (sort_key sort_key_of nodes)) = set (map ?h es)"
    "length (sort_key sort_key_of nodes) = length es"
    using map_eq_imp_length_eq [of ?g nodes ?h es] by (simp_all del: map_map)
      (metis list.set_map)
  moreover have "build_tree (Suc levels) st root_path rel_path = Inr (sort_key sort_key_of nodes)"
    using sc nodes by simp
  ultimately show ?case
    by blast
qed

subsection \<open>Removing\<close>

lemma remove_entries_all:
  "list_all (\<lambda>e. node_depth (snd e) \<le> l) es \<Longrightarrow> fst (remove_entries l es)"
proof (induction l es rule: remove_entries.induct)
  case (1 l)
  show ?case by simp
next
  case (2 l nm c es)
  then show ?case by simp
next
  case (3 nm ds es)
  then show ?case by simp
next
  case (4 l nm ds es)
  from "4.prems" have d: "node_depth (Dir ds) \<le> Suc l"
    and r: "list_all (\<lambda>e. node_depth (snd e) \<le> Suc l) es"
    by simp_all
  from d have "list_all (\<lambda>e. node_depth (snd e) \<le> l) ds"
    by (simp only: node_depth_Dir)
  from "4.IH"(1) [OF this] obtain ds' where a: "remove_entries l ds = (True, ds')"
    by (cases "remove_entries l ds") auto
  from "4.IH"(2) [OF a [symmetric] _ r] have "fst (remove_entries (Suc l) es)"
    by simp
  with a show ?case by simp
qed

lemma walk_error:
  "walk t cur cs = Inl e \<Longrightarrow> e = FileNotFoundError \<or> e = NotADirectoryError"
proof (induction cs arbitrary: cur)
  case Nil
  then show ?case by simp
next
  case (Cons c cs)
  then show ?case
    by (auto simp: walk.simps(2) split: option.splits fnode.splits if_splits)
qed

lemma namei_error:
  "namei st p = Inl e \<Longrightarrow> e = FileNotFoundError \<or> e = NotADirectoryError \<or> e = ValueError"
  using walk_error [of "fs_root st" _ "split_sep p" e]
  by (auto simp: namei_def split: if_splits)

subsection \<open>Renaming\<close>

lemma normal_last_name:
  assumes "valid_name nm"
  shows "normal_last (d @ sep # nm)"
proof -
  from assms have n: "nm \<noteq> []" "nm \<noteq> ''.''" "nm \<noteq> ''..''" "sep \<notin> set nm"
    by (simp_all add: valid_name_def)
  have "filter (\<lambda>c. c \<noteq> []) (split_sep (d @ sep # nm))
      = filter (\<lambda>c. c \<noteq> []) (split_sep d) @ [nm]"
    using n(1,4) by (simp add: split_sep_append split_sep_name del: split_sep.simps)
  moreover have "(case xs of [] \<Rightarrow> [] | c # cs \<Rightarrow> last (c # cs)) = last xs"
    if "xs \<noteq> []" for xs :: "string list"
    using that by (cases xs) simp_all
  ultimately have "last_comp (d @ sep # nm) = nm"
    by (simp add: last_comp_def)
  with n show ?thesis
    by (simp add: normal_last_def)
qed

lemma sub_path_last:
  "ns \<noteq> [] \<Longrightarrow> sub_path d ns = sub_path d (butlast ns) @ sep # last ns"
  using sub_path_simps(2) [of d "butlast ns" "last ns"] by simp

section \<open>Path sandbox\<close>

text \<open>
  C1.  The claim is that \<^verbatim>\<open>safe_path\<close> either fails with a path-escape error or returns
  a path within the storage root.  The function has no failing branch and no containment
  check: on \<^verbatim>\<open>../../etc/passwd\<close> it returns \<^verbatim>\<open>../etc/passwd\<close>, and an absolute input
  is returned as it is; neither lies within the root, while a path without \<open>..\<close> does.
\<close>

theorem safe_path_escapes_root:
  "safe_path ''../../etc/passwd'' = ''../etc/passwd''
   \<and> \<not> within_root (safe_path ''../../etc/passwd'')
   \<and> safe_path ''/etc/passwd'' = ''/etc/passwd''
   \<and> \<not> within_root (safe_path ''/etc/passwd'')
   \<and> safe_path ''0/a.txt'' = ''decisions/0/a.txt''
   \<and> within_root (safe_path ''0/a.txt'')"
  by code_simp

section \<open>Round trip of write and read\<close>

text \<open>
  C5.  The claim is that \<^verbatim>\<open>write(p, c)\<close> followed by \<^verbatim>\<open>read(p)\<close> returns exactly \<open>c\<close>.
  The file is read in text mode, with universal newlines: a content with a carriage
  return comes back changed.
\<close>

theorem write_then_read_counterexample:
  "fst (fs_write ''a.txt'' [CHR ''x'', CR, LF, CHR ''y''] fresh_store) = Inr ([], 201)
   \<and> fst (fs_read ''a.txt'' (snd (fs_write ''a.txt'' [CHR ''x'', CR, LF, CHR ''y''] fresh_store)))
       = Inr ([CHR ''x'', LF, CHR ''y''], 200)
   \<and> [CHR ''x'', LF, CHR ''y''] \<noteq> [CHR ''x'', CR, LF, CHR ''y'']"
  by code_simp

text \<open>
  C5, amended.  Whenever \<^verbatim>\<open>write(p, c)\<close> succeeds, \<^verbatim>\<open>read(p)\<close> succeeds and returns \<open>c\<close>
  with every \<open>CR LF\<close> and every lone \<open>CR\<close> replaced by \<open>LF\<close>; it returns exactly \<open>c\<close>
  when \<open>c\<close> has no carriage return.
\<close>

theorem write_then_read:
  assumes "fs_write p c st = (Inr r, st')"
  shows "fs_read p st' = (Inr (universal_newlines c, 200), st')
    \<and> (CR \<notin> set c \<longrightarrow> fs_read p st' = (Inr (c, 200), st'))"
  using fs_read_file [OF fs_write_stat [OF assms] refl] universal_newlines_no_CR [of c]
  by auto

theorem write_then_read_witness:
  "fs_write ''a/b.txt'' ''hello'' fresh_store
     = (Inr ([], 201), snd (fs_write ''a/b.txt'' ''hello'' fresh_store))
   \<and> fs_read ''a/b.txt'' (snd (fs_write ''a/b.txt'' ''hello'' fresh_store))
     = (Inr (''hello'', 200), snd (fs_write ''a/b.txt'' ''hello'' fresh_store))"
proof -
  have f: "fst (fs_write ''a/b.txt'' ''hello'' fresh_store) = Inr ([], 201)"
    by code_simp
  have w: "fs_write ''a/b.txt'' ''hello'' fresh_store
      = (Inr ([], 201), snd (fs_write ''a/b.txt'' ''hello'' fresh_store))"
    by (rule prod_eqI) (simp_all add: f)
  have n: "CR \<notin> set ''hello''"
    by code_simp
  from write_then_read [OF w] n
  have r: "fs_read ''a/b.txt'' (snd (fs_write ''a/b.txt'' ''hello'' fresh_store))
      = (Inr (''hello'', 200), snd (fs_write ''a/b.txt'' ''hello'' fresh_store))"
    by blast
  from w r show ?thesis
    by (rule conjI)
qed

section \<open>Save and write\<close>

text \<open>
  C10.  \<^verbatim>\<open>fs_save\<close> and \<^verbatim>\<open>fs_write\<close> are the same function of the request and the
  state.  Whenever they succeed they answer \<open>201\<close> with an empty body and the target holds
  the content.  For a short path of names \<open>ds\<close> and \<open>f\<close> below an existing storage root,
  with no file on the way where a directory of \<open>ds\<close> is to be and no directory where \<open>f\<close>
  is to be, both do succeed: the directories \<open>ds\<close> exist afterwards, made as far as they
  were missing, and \<open>f\<close> holds the content, whatever file was there before.
\<close>

theorem fs_save_is_fs_write:
  "fs_save p c st = fs_write p c st
   \<and> (\<forall>r st'. fs_write p c st = (Inr r, st') \<longrightarrow>
         r = ([], 201) \<and> read_bytes st' (safe_path p) = Inr c)
   \<and> (isdir_at (fs_root st) (root_loc st) \<and> list_all valid_name (ds @ [f]) \<and> short_path (ds @ [f])
        \<and> (\<forall>k \<le> length ds. \<not> is_file_at (fs_root st) (root_loc st @ take k ds))
        \<and> \<not> isdir_at (fs_root st) (root_loc st @ ds @ [f])
      \<longrightarrow> (\<exists>st'. fs_save (join_sep (ds @ [f])) c st = (Inr ([], 201), st')
             \<and> fs_write (join_sep (ds @ [f])) c st = (Inr ([], 201), st')
             \<and> (\<forall>k \<le> length ds. isdir_at (fs_root st') (root_loc st @ take k ds))
             \<and> lookup (fs_root st') (root_loc st @ ds @ [f]) = Some (File c)
             \<and> read_bytes st' (safe_path (join_sep (ds @ [f]))) = Inr c))"
proof -
  have eq: "fs_save p c st = fs_write p c st" for p
    by (simp add: fs_save_def fs_write_def)
  have "r = ([], 201)" if "fs_write p c st = (Inr r, st')" for r st'
    using that by (auto simp: fs_write_def and_then_Inr return_ok_def)
  moreover have rb: "read_bytes st' (safe_path p) = Inr c" if "fs_write p c st = (Inr r, st')"
    for r st' p
    using fs_write_stat [OF that] by (simp add: read_bytes_def)
  moreover have "\<exists>st'. fs_save (join_sep (ds @ [f])) c st = (Inr ([], 201), st')
             \<and> fs_write (join_sep (ds @ [f])) c st = (Inr ([], 201), st')
             \<and> (\<forall>k \<le> length ds. isdir_at (fs_root st') (root_loc st @ take k ds))
             \<and> lookup (fs_root st') (root_loc st @ ds @ [f]) = Some (File c)
             \<and> read_bytes st' (safe_path (join_sep (ds @ [f]))) = Inr c"
    if h: "isdir_at (fs_root st) (root_loc st)" "list_all valid_name (ds @ [f])"
      "\<forall>k \<le> length ds. \<not> is_file_at (fs_root st) (root_loc st @ take k ds)"
      "\<not> isdir_at (fs_root st) (root_loc st @ ds @ [f])"
  proof -
    from fs_write_creates [OF h, of c]
    obtain st' where w: "fs_write (join_sep (ds @ [f])) c st = (Inr ([], 201), st')"
      and d: "isdir_at (fs_root st') (root_loc st @ ds)"
      and l: "lookup (fs_root st') (root_loc st @ ds @ [f]) = Some (File c)"
      by blast
    have "isdir_at (fs_root st') (root_loc st @ take k ds)" for k
      using isdir_at_prefix [of "fs_root st'" "root_loc st @ take k ds" "drop k ds"] d
      by simp
    with w l rb [OF w] eq show ?thesis
      by simp
  qed
  ultimately show ?thesis
    using eq by blast
qed

theorem fs_save_is_fs_write_witness:
  "isdir_at (fs_root fresh_store) (root_loc fresh_store)
   \<and> list_all valid_name ([''x'', ''y''] @ [''n.txt'']) \<and> short_path ([''x'', ''y''] @ [''n.txt''])
   \<and> \<not> is_file_at (fs_root fresh_store) (root_loc fresh_store)
   \<and> lookup (fs_root fresh_store) (root_loc fresh_store @ [''x'']) = None
   \<and> fs_save ''x/y/n.txt'' ''v2'' fresh_store = fs_write ''x/y/n.txt'' ''v2'' fresh_store
   \<and> (\<exists>st'. fs_write ''x/y/n.txt'' ''v2'' fresh_store = (Inr ([], 201), st')
         \<and> isdir_at (fs_root st') (root_loc fresh_store @ [''x''])
         \<and> isdir_at (fs_root st') (root_loc fresh_store @ [''x'', ''y''])
         \<and> lookup (fs_root st') (root_loc fresh_store @ [''x'', ''y'', ''n.txt'']) = Some (File ''v2'')
         \<and> read_bytes st' (safe_path ''x/y/n.txt'') = Inr ''v2'')"
proof -
  let ?S = fresh_store and ?ds = "[''x'', ''y'']" and ?f = "''n.txt''"
  have r: "isdir_at (fs_root ?S) (root_loc ?S)"
    by code_simp
  have v: "list_all valid_name (?ds @ [?f])" "short_path (?ds @ [?f])"
    by code_simp+
  have j: "join_sep (?ds @ [?f]) = ''x/y/n.txt''"
    by code_simp
  have f0: "\<not> is_file_at (fs_root ?S) (root_loc ?S)"
    by code_simp
  have x: "lookup (fs_root ?S) (root_loc ?S @ [''x'']) = None"
    by code_simp
  have below: "lookup (fs_root ?S) (root_loc ?S @ ''x'' # q) = None" for q
    using x lookup_append [of "fs_root ?S" "root_loc ?S @ [''x'']" q] by simp
  have nf: "\<forall>k \<le> length ?ds. \<not> is_file_at (fs_root ?S) (root_loc ?S @ take k ?ds)"
  proof (intro allI impI)
    fix k :: nat assume "k \<le> length ?ds"
    then consider "k = 0" | "k = 1" | "k = 2"
      by fastforce
    then show "\<not> is_file_at (fs_root ?S) (root_loc ?S @ take k ?ds)"
      using f0 below [of "[]"] below [of "[''y'']"]
      by cases (simp_all add: is_file_at_def)
  qed
  have nd: "\<not> isdir_at (fs_root ?S) (root_loc ?S @ ?ds @ [?f])"
    using below [of "[''y'', ''n.txt'']"] by (simp add: isdir_at_iff)
  from fs_save_is_fs_write [of "''x/y/n.txt''" "''v2''" ?S ?ds ?f] r v nf nd
  obtain st' where e: "fs_save ''x/y/n.txt'' ''v2'' ?S = fs_write ''x/y/n.txt'' ''v2'' ?S"
    and w: "fs_write (join_sep (?ds @ [?f])) ''v2'' ?S = (Inr ([], 201), st')"
    and d: "\<forall>k \<le> length ?ds. isdir_at (fs_root st') (root_loc ?S @ take k ?ds)"
    and l: "lookup (fs_root st') (root_loc ?S @ ?ds @ [?f]) = Some (File ''v2'')"
    and b: "read_bytes st' (safe_path (join_sep (?ds @ [?f]))) = Inr ''v2''"
    by blast
  from d [rule_format, of 1] d [rule_format, of 2]
  have "isdir_at (fs_root st') (root_loc ?S @ [''x''])"
    "isdir_at (fs_root st') (root_loc ?S @ [''x'', ''y''])"
    by simp_all
  with w l b have "\<exists>st'. fs_write ''x/y/n.txt'' ''v2'' ?S = (Inr ([], 201), st')
         \<and> isdir_at (fs_root st') (root_loc ?S @ [''x''])
         \<and> isdir_at (fs_root st') (root_loc ?S @ [''x'', ''y''])
         \<and> lookup (fs_root st') (root_loc ?S @ [''x'', ''y'', ''n.txt'']) = Some (File ''v2'')
         \<and> read_bytes st' (safe_path ''x/y/n.txt'') = Inr ''v2''"
    unfolding j by auto
  with r v f0 x e show ?thesis
    by blast
qed

section \<open>The list of revisions\<close>

text \<open>
  C8.  When the file \<open>HEAD\<close> of the storage root holds a plain text \<open>c\<close> that reads as the
  number \<open>h\<close>, and \<open>h\<close> is not negative, as in every well-formed store, \<^verbatim>\<open>rev_list\<close>
  answers with \<open>latest = h\<close> and with \<open>list\<close> the integers from \<open>0\<close> to \<open>h\<close> in order,
  \<open>h + 1\<close> of them, the one at index \<open>i\<close> being \<open>i\<close>; it leaves the state as it is.
\<close>

theorem rev_list_range:
  assumes "lookup (fs_root st) (root_loc st @ [''HEAD'']) = Some (File c)"
    and "plain_text c"
    and "py_int (strip (universal_newlines c)) = Inr h"
    and "0 \<le> h"
  shows "\<exists>r. rev_list st = (Inr r, st) \<and> latest r = h \<and> list r = [0..h]
    \<and> int (length (list r)) = h + 1
    \<and> (\<forall>i < length (list r). list r ! i = int i)"
proof -
  from lookup_prefix_dir [of "fs_root st" "root_loc st" "''HEAD''" "[]"] assms(1)
  obtain es where es: "lookup (fs_root st) (root_loc st) = Some (Dir es)"
    by auto
  from lookup_in_dir [OF es, of "''HEAD''" "[]"] assms(1)
  have "map_of es ''HEAD'' = Some (File c)"
    by (simp split: option.splits)
  with read_head_in_root [OF es] assms(3) have "read_head st = Inr h"
    by simp
  then have "rev_list st = (Inr \<lparr>latest = h, list = [0..h]\<rparr>, st)"
    by (simp add: rev_list_def current_rev_def py_range_def)
  moreover have "int (length [0..h]) = h + 1"
    using assms(4) by simp
  moreover have "[0..h] ! i = int i" if "i < length [0..h]" for i
    using that by simp
  ultimately show ?thesis
    by simp
qed

theorem rev_list_range_witness:
  "lookup (fs_root (snd (allocate_many 2 fresh_store)))
      (root_loc (snd (allocate_many 2 fresh_store)) @ [''HEAD'']) = Some (File ''2'')
   \<and> plain_text ''2''
   \<and> py_int (strip (universal_newlines ''2'')) = Inr 2
   \<and> rev_list (snd (allocate_many 2 fresh_store))
       = (Inr \<lparr>latest = 2, list = [0, 1, 2]\<rparr>, snd (allocate_many 2 fresh_store))"
proof -
  let ?S = "snd (allocate_many 2 fresh_store)"
  have f: "lookup (fs_root ?S) (root_loc ?S @ [''HEAD'']) = Some (File ''2'')"
    by code_simp
  have t: "plain_text ''2''"
    by code_simp
  have h: "py_int (strip (universal_newlines ''2'')) = Inr 2"
    by code_simp
  have u: "[0..2] = [0, 1, 2 :: int]"
    by code_simp
  from rev_list_range [OF f t h] obtain r
    where "rev_list ?S = (Inr r, ?S)" and "latest r = 2" and "list r = [0, 1, 2]"
    by (auto simp: u)
  then have "rev_list ?S = (Inr \<lparr>latest = 2, list = [0, 1, 2]\<rparr>, ?S)"
    by simp
  with f t h show ?thesis
    by blast
qed

section \<open>Allocation of revision numbers\<close>

text \<open>
  C2.  In a well-formed store whose \<open>HEAD\<close> holds \<open>h\<close>, \<^verbatim>\<open>bump_rev\<close> returns \<open>h + 1\<close>, has made
  the empty directory of that revision and has set \<open>HEAD\<close> to it; \<open>k\<close> allocations in a row
  return \<open>h + 1, \<dots>, h + k\<close>, in this order, and leave a well-formed store whose revisions are
  those from \<open>0\<close> to the new \<open>HEAD\<close>.  In any state, when the directory of the next revision
  exists already, \<^verbatim>\<open>bump_rev\<close> raises \<^verbatim>\<open>FileExistsError\<close> and changes nothing.
\<close>

theorem bump_rev_sequence:
  assumes "store_ok st" and "read_head st = Inr h"
  shows "(\<exists>st'. bump_rev st = (Inr (h + 1), st')
          \<and> lookup (fs_root st') (root_loc st' @ [py_str (h + 1)]) = Some (Dir [])
          \<and> read_head st' = Inr (h + 1))
    \<and> (\<exists>st'. allocate_many k st = (Inr [h + 1..h + int k], st') \<and> store_ok st'
          \<and> read_head st' = Inr (h + int k)
          \<and> set (existing_revisions st') = {0..h + int k})
    \<and> (\<forall>s n. read_head s = Inr n \<and> path_exists s (join STORAGE_ROOT (py_str (n + 1)))
          \<longrightarrow> bump_rev s = (Inl FileExistsError, s))"
proof (intro conjI)
  from bump_rev_ok [OF assms]
  obtain st' es where b: "bump_rev st = (Inr (h + 1), st')" and h': "read_head st' = Inr (h + 1)"
    and c: "cwd st' = cwd st"
    and es': "lookup (fs_root st') (root_loc st)
        = Some (Dir (AList.update ''HEAD'' (File (py_str (h + 1)))
                      (AList.update (py_str (h + 1)) (Dir []) es)))"
    by blast
  have "root_loc st' = root_loc st"
    using c by (simp add: root_loc_def)
  then have "lookup (fs_root st') (root_loc st' @ [py_str (h + 1)]) = Some (Dir [])"
    using lookup_in_dir [OF es', of "py_str (h + 1)" "[]"] py_str_not_HEAD [of "h + 1"]
    by (simp add: update_conv')
  with b h' show "\<exists>st'. bump_rev st = (Inr (h + 1), st')
      \<and> lookup (fs_root st') (root_loc st' @ [py_str (h + 1)]) = Some (Dir [])
      \<and> read_head st' = Inr (h + 1)"
    by blast
next
  from allocate_many_ok [OF assms, of k]
  show "\<exists>st'. allocate_many k st = (Inr [h + 1..h + int k], st') \<and> store_ok st'
      \<and> read_head st' = Inr (h + int k) \<and> set (existing_revisions st') = {0..h + int k}"
    using store_ok_revisions by blast
next
  show "\<forall>s n. read_head s = Inr n \<and> path_exists s (join STORAGE_ROOT (py_str (n + 1)))
      \<longrightarrow> bump_rev s = (Inl FileExistsError, s)"
    using bump_rev_conflict by blast
qed

theorem bump_rev_sequence_witness:
  "store_ok fresh_store \<and> read_head fresh_store = Inr 0
   \<and> fst (bump_rev fresh_store) = Inr 1
   \<and> fst (allocate_many 3 fresh_store) = Inr [1, 2, 3]
   \<and> read_head (snd (allocate_many 3 fresh_store)) = Inr 3
   \<and> set (existing_revisions (snd (allocate_many 3 fresh_store))) = {0..3}
   \<and> bump_rev (snd (fs_write ''HEAD'' ''0'' (snd (bump_rev fresh_store))))
       = (Inl FileExistsError, snd (fs_write ''HEAD'' ''0'' (snd (bump_rev fresh_store))))"
proof -
  let ?S = "snd (fs_write ''HEAD'' ''0'' (snd (bump_rev fresh_store)))"
  have ok: "store_ok fresh_store"
    by code_simp
  have h: "read_head fresh_store = Inr 0"
    by code_simp
  have c: "read_head ?S = Inr 0 \<and> path_exists ?S (join STORAGE_ROOT (py_str (0 + 1)))"
    by code_simp
  have u: "[1..3] = [1, 2, 3 :: int]"
    by code_simp
  note t = bump_rev_sequence [OF ok h, of 3]
  from t obtain st1 where "bump_rev fresh_store = (Inr (0 + 1), st1)"
    by blast
  then have b: "fst (bump_rev fresh_store) = Inr 1"
    by simp
  from t obtain st3 where "allocate_many 3 fresh_store = (Inr [0 + 1..0 + int 3], st3)"
    and "read_head st3 = Inr (0 + int 3)" and "set (existing_revisions st3) = {0..0 + int 3}"
    by blast
  then have a: "fst (allocate_many 3 fresh_store) = Inr [1, 2, 3]"
    "read_head (snd (allocate_many 3 fresh_store)) = Inr 3"
    "set (existing_revisions (snd (allocate_many 3 fresh_store))) = {0..3}"
    by (simp_all add: u)
  from t c have "bump_rev ?S = (Inl FileExistsError, ?S)"
    by blast
  with ok h b a show ?thesis
    by blast
qed

section \<open>Writing to the path HEAD\<close>

text \<open>
  C9.  File operations resolve the path of the caller against the storage root itself, where
  the metadata file \<open>HEAD\<close> lies.  In every store whose \<open>HEAD\<close> can be read, and for every
  plain text \<open>c\<close>, \<^verbatim>\<open>write("HEAD", c)\<close> succeeds and overwrites that file: afterwards it
  holds \<open>c\<close>, and \<^verbatim>\<open>current_rev\<close> returns what \<^verbatim>\<open>int\<close> makes of \<open>c\<close>, an integer or a
  \<^verbatim>\<open>ValueError\<close>, in the place of the head that was allocated.
\<close>

theorem write_HEAD_sets_current_rev:
  assumes "read_head st = Inr h" and "plain_text c"
  shows "\<exists>st'. fs_write ''HEAD'' c st = (Inr ([], 201), st')
    \<and> read_bytes st' head_path = Inr c
    \<and> current_rev st' = py_int (strip (universal_newlines c))"
proof -
  let ?R = "root_loc st"
  from read_head_root_dir [OF assms(1)] have dR: "isdir_at (fs_root st) ?R" .
  then obtain es where es: "lookup (fs_root st) ?R = Some (Dir es)"
    by (auto simp: isdir_at_iff)
  obtain hc where hc: "map_of es ''HEAD'' = Some (File hc)"
    using assms(1) read_head_in_root [OF es] by (auto split: option.splits fnode.splits)
  define st' where "st' = st\<lparr>fs_root := put (fs_root st) (?R @ [''HEAD'']) (File c)\<rparr>"
  have R': "root_loc st' = ?R"
    by (simp add: st'_def root_loc_def)
  have "lookup (fs_root st) (?R @ [''HEAD'']) = Some (File hc)"
    using lookup_in_dir [OF es, of "''HEAD''" "[]"] hc by simp
  then have w: "write_file (root_dir @ sep # ''HEAD'') c st = (Inr (), st')"
    using namei_in_root(2) [OF dR valid_name_HEAD] by (simp add: write_file_def st'_def)
  have f: "fs_write ''HEAD'' c st = (Inr ([], 201), st')"
    by (simp add: fs_write_def safe_path_HEAD dirname_in_root valid_name_HEAD and_then_def
        makedirs_root_dir [OF dR] w return_ok_def)
  have es': "lookup (fs_root st') ?R = Some (Dir (AList.update ''HEAD'' (File c) es))"
    by (simp add: st'_def lookup_put_child [OF es])
  then have dR': "isdir_at (fs_root st') (root_loc st')"
    by (simp add: isdir_at_iff R')
  have "lookup (fs_root st') (root_loc st' @ [''HEAD'']) = Some (File c)"
    using lookup_in_dir [OF es', of "''HEAD''" "[]"] by (simp add: update_conv' R')
  then have b: "read_bytes st' head_path = Inr c"
    using namei_in_root(1) [OF dR' valid_name_HEAD]
    by (simp add: read_bytes_def stat_def head_path_eq)
  then have "current_rev st' = py_int (strip (universal_newlines c))"
    by (simp add: current_rev_def read_head_def read_file_def)
  with f b show ?thesis by blast
qed

theorem write_HEAD_sets_current_rev_witness:
  "read_head fresh_store = Inr 0 \<and> plain_text ''41''
   \<and> fst (fs_write ''HEAD'' ''41'' fresh_store) = Inr ([], 201)
   \<and> current_rev (snd (fs_write ''HEAD'' ''41'' fresh_store)) = Inr 41"
proof -
  have h: "read_head fresh_store = Inr 0" "plain_text ''41''"
    by code_simp+
  have p: "py_int (strip (universal_newlines ''41'')) = Inr 41"
    by code_simp
  from write_HEAD_sets_current_rev [OF h]
  obtain st' where "fs_write ''HEAD'' ''41'' fresh_store = (Inr ([], 201), st')"
    and "current_rev st' = py_int (strip (universal_newlines ''41''))"
    by blast
  then have "fst (fs_write ''HEAD'' ''41'' fresh_store) = Inr ([], 201)"
    and "current_rev (snd (fs_write ''HEAD'' ''41'' fresh_store)) = Inr 41"
    using p by simp_all
  with h show ?thesis by blast
qed

section \<open>Snapshots\<close>

text \<open>
  C3.  In a well-formed store whose \<open>HEAD\<close> holds \<open>h\<close>, on a well-formed tree, when the
  directory of revision \<open>h\<close> has no more levels of subdirectories than the recursion limit
  admits nested calls of \<^verbatim>\<open>copytree\<close>, \<^verbatim>\<open>fs_snapshot\<close> returns \<open>h + 1\<close>, and afterwards
  the directory of revision \<open>h + 1\<close> holds what the directory of revision \<open>h\<close> held when the
  call was made, every file and every subdirectory: each file of revision \<open>h\<close> is found at
  the same relative place \<open>rel\<close> in revision \<open>h + 1\<close> with the same bytes.
\<close>

theorem snapshot_copies_revision:
  assumes "store_ok st" and "read_head st = Inr h" and "fs_ok (fs_root st)"
    and "lookup (fs_root st) (root_loc st @ [py_str h]) = Some src"
    and "node_depth src \<le> Suc levels"
  shows "\<exists>st'. fs_snapshot levels st = (Inr (h + 1), st')
    \<and> (\<forall>rel c. lookup (fs_root st) (root_loc st @ py_str h # rel) = Some (File c)
          \<longrightarrow> lookup (fs_root st') (root_loc st' @ py_str (h + 1) # rel) = Some (File c))
    \<and> lookup (fs_root st') (root_loc st' @ [py_str (h + 1)]) = Some src"
proof -
  let ?H = "py_str h" and ?N = "py_str (h + 1)" and ?R = "root_loc st"
  have v: "valid_name ?H" "valid_name ?N"
    by (rule valid_name_py_str)+
  have HN: "?H \<noteq> ?N"
    using py_str_inj [of h "h + 1"] by auto
  from bump_rev_ok [OF assms(1,2)]
  obtain st1 es where b: "bump_rev st = (Inr (h + 1), st1)" and c1: "cwd st1 = cwd st"
    and es: "lookup (fs_root st) ?R = Some (Dir es)"
    and es1: "lookup (fs_root st1) ?R
        = Some (Dir (AList.update ''HEAD'' (File ?N) (AList.update ?N (Dir []) es)))"
    by blast
  have R1: "root_loc st1 = ?R"
    using c1 by (simp add: root_loc_def)
  from store_okD [OF assms(1)] assms(2) es have "is_dir_entry es ?H"
    by auto
  then obtain ses where ses: "map_of es ?H = Some (Dir ses)"
    by (auto simp: is_dir_entry_def split: option.splits fnode.splits)
  have H0: "lookup (fs_root st) (?R @ [?H]) = Some (Dir ses)"
    using lookup_in_dir [OF es, of ?H "[]"] ses by simp
  with assms(4) have src: "src = Dir ses"
    by simp
  have H1: "lookup (fs_root st1) (root_loc st1 @ [?H]) = Some (Dir ([] @ ses))"
    using lookup_in_dir [OF es1, of ?H "[]"] ses HN py_str_not_HEAD [of h]
    by (simp add: update_conv' R1)
  have N1: "lookup (fs_root st1) (root_loc st1 @ [?N]) = Some (Dir [])"
    using lookup_in_dir [OF es1, of ?N "[]"] py_str_not_HEAD [of "h + 1"]
    by (simp add: update_conv' R1)
  have dR1: "isdir_at (fs_root st1) (root_loc st1)"
    using es1 by (simp add: isdir_at_iff R1)
  have "isdir st1 (root_dir @ sep # ?N)"
    using namei_revision(1) [OF N1 v(2)] N1 by (simp add: isdir_def stat_def)
  then have mk: "makedirs (root_dir @ sep # ?N) True st1 = (Inr (), st1)"
    using makedirs_existing_parent [OF v(2) root_dir_shape(1,2) path_exists_STORAGE_ROOT(2) [OF dR1]]
      makedirs_leaf_existing_dir
    by simp
  have ld: "listdir st1 (root_dir @ sep # ?H) = Inr (map fst ses)"
    using namei_revision(1) [OF H1 v(1)] H1
    by (simp add: listdir_def scandir_def stat_def)
  from fs_ok_lookup [OF assms(3) H0] have ok: "distinct (map fst ses)" "list_all valid_name (map fst ses)"
    by simp_all
  from assms(5) have dp: "list_all (\<lambda>e. node_depth (snd e) \<le> levels) ses"
    unfolding src by (simp only: node_depth_Dir)
  from snapshot_loop_copies [OF H1 N1 v HN, of levels] ok dp
  obtain st' where loop: "snapshot_loop levels (root_dir @ sep # ?H) (root_dir @ sep # ?N) (map fst ses) st1
      = (Inr (), st')"
    and c': "cwd st' = cwd st1"
    and N': "lookup (fs_root st') (root_loc st1 @ [?N]) = Some (Dir ([] @ ses))"
    by auto
  have R': "root_loc st' = ?R"
    using c' c1 by (simp add: root_loc_def)
  have f: "fs_snapshot levels st = (Inr (h + 1), st')"
    using loop
    by (simp add: fs_snapshot_def and_then_def current_rev_def assms(2) b mk ld return_ok_def
        safe_path_name [OF v(1)] safe_path_name [OF v(2)])
  have same: "lookup (fs_root st') (root_loc st' @ [?N]) = lookup (fs_root st) (?R @ [?H])"
    using N' H0 by (simp add: R' R1)
  have "lookup (fs_root st') (root_loc st' @ ?N # rel) = lookup (fs_root st) (?R @ ?H # rel)" for rel
    using same lookup_append [of "fs_root st'" "root_loc st' @ [?N]" rel]
      lookup_append [of "fs_root st" "?R @ [?H]" rel]
    by simp
  with f same assms(4) show ?thesis
    by auto
qed

theorem snapshot_copies_revision_witness:
  "store_ok (snd (fs_write ''0/a/b.txt'' ''hello'' fresh_store))
   \<and> read_head (snd (fs_write ''0/a/b.txt'' ''hello'' fresh_store)) = Inr 0
   \<and> fs_ok (fs_root (snd (fs_write ''0/a/b.txt'' ''hello'' fresh_store)))
   \<and> (\<exists>st'. fs_snapshot 400 (snd (fs_write ''0/a/b.txt'' ''hello'' fresh_store)) = (Inr 1, st')
         \<and> lookup (fs_root st') (root_loc st' @ [''1'', ''a'', ''b.txt'']) = Some (File ''hello'')
         \<and> lookup (fs_root st') (root_loc st' @ [''1''])
             = Some (Dir [(''a'', Dir [(''b.txt'', File ''hello'')])]))
   \<and> fst (fs_read ''1/a/b.txt'' (snd (fs_snapshot 400 (snd (fs_write ''0/a/b.txt'' ''hello'' fresh_store)))))
       = Inr (''hello'', 200)"
proof -
  let ?S = "snd (fs_write ''0/a/b.txt'' ''hello'' fresh_store)"
  have ok: "store_ok ?S"
    by code_simp
  have h: "read_head ?S = Inr 0"
    by code_simp
  have f: "fs_ok (fs_root ?S)"
    by code_simp
  have n: "py_str 0 = ''0''" "py_str (0 + 1) = ''1''"
    by code_simp+
  have s: "lookup (fs_root ?S) (root_loc ?S @ [py_str 0])
      = Some (Dir [(''a'', Dir [(''b.txt'', File ''hello'')])])"
    by code_simp
  have d: "node_depth (Dir [(''a'', Dir [(''b.txt'', File ''hello'')])]) \<le> Suc 400"
    by code_simp
  have l: "lookup (fs_root ?S) (root_loc ?S @ [''0'', ''a'', ''b.txt'']) = Some (File ''hello'')"
    by code_simp
  have r: "fst (fs_read ''1/a/b.txt'' (snd (fs_snapshot 400 ?S))) = Inr (''hello'', 200)"
    by code_simp
  from snapshot_copies_revision [OF ok h f s d]
  obtain st' where s: "fs_snapshot 400 ?S = (Inr (0 + 1), st')"
    and c: "\<forall>rel c. lookup (fs_root ?S) (root_loc ?S @ py_str 0 # rel) = Some (File c)
          \<longrightarrow> lookup (fs_root st') (root_loc st' @ py_str (0 + 1) # rel) = Some (File c)"
    and t: "lookup (fs_root st') (root_loc st' @ [py_str (0 + 1)])
      = Some (Dir [(''a'', Dir [(''b.txt'', File ''hello'')])])"
    by blast
  from c l have "lookup (fs_root st') (root_loc st' @ [''1'', ''a'', ''b.txt'']) = Some (File ''hello'')"
    unfolding n by simp
  with s t have "\<exists>st'. fs_snapshot 400 ?S = (Inr 1, st')
         \<and> lookup (fs_root st') (root_loc st' @ [''1'', ''a'', ''b.txt'']) = Some (File ''hello'')
         \<and> lookup (fs_root st') (root_loc st' @ [''1''])
             = Some (Dir [(''a'', Dir [(''b.txt'', File ''hello'')])])"
    unfolding n by simp
  with ok h f r show ?thesis
    by blast
qed

text \<open>
  Beyond the limit the copy is refused after the new revision was allocated: with no nested
  call admitted, the snapshot of a revision that holds a directory raises, and \<open>HEAD\<close>
  names the revision that was not completed.
\<close>

lemma snapshot_beyond_limit:
  "fst (fs_snapshot 0 (snd (fs_write ''0/a/b.txt'' ''hello'' fresh_store))) = Inl RecursionError
   \<and> read_head (snd (fs_snapshot 0 (snd (fs_write ''0/a/b.txt'' ''hello'' fresh_store)))) = Inr 1"
  by code_simp

section \<open>The order of a listing\<close>



section \<open>Deleting\<close>

text \<open>
  C6.  The claim is that \<^verbatim>\<open>delete(p)\<close> fails with \<^verbatim>\<open>NotFound\<close> when the target does not
  exist and removes every target that exists.  A target that does not exist makes
  \<^verbatim>\<open>fs_delete\<close> raise \<^verbatim>\<open>NotADirectoryError\<close> when a file is in the way of the path and
  \<^verbatim>\<open>ValueError\<close> when the path holds a null byte; and the working directory, the target
  of the path \<open>..\<close>, exists, and \<^verbatim>\<open>fs_delete\<close> empties it and then raises.
\<close>

theorem fs_delete_counterexample:
  "stat fresh_store (safe_path ''HEAD/x'') = Inl NotADirectoryError
   \<and> fs_delete 400 ''HEAD/x'' fresh_store = (Inl NotADirectoryError, fresh_store)
   \<and> stat fresh_store (safe_path [CHR 0x00]) = Inl ValueError
   \<and> fs_delete 400 [CHR 0x00] fresh_store = (Inl ValueError, fresh_store)
   \<and> stat fresh_store (safe_path ''..'') = Inr (Dir [(''decisions'', Dir [(''0'', Dir []), (''HEAD'', File ''0'')])])
   \<and> fst (fs_delete 400 ''..'' fresh_store) = Inl OSError
   \<and> stat (snd (fs_delete 400 ''..'' fresh_store)) (safe_path ''..'') = Inr (Dir [])"
  by code_simp

text \<open>
  C6, amended.  When the target does not exist, \<^verbatim>\<open>fs_delete\<close> raises the error of the
  path resolution, \<^verbatim>\<open>FileNotFoundError\<close> when the path resolves and names nothing, and
  leaves the state as it is.  A file is removed.  A directory whose path ends in a name
  and which has no more levels than the recursion limit admits is removed with all that it
  holds.  In both cases the answer is \<open>204\<close> and the rest of the tree is as before.
\<close>

theorem fs_delete_removes:
  "(stat st (safe_path p) = Inl e \<longrightarrow>
      fs_delete levels p st = (Inl e, st)
      \<and> (e = FileNotFoundError \<or> e = NotADirectoryError \<or> e = ValueError)
      \<and> (\<forall>loc. namei st (safe_path p) = Inr loc \<longrightarrow> e = FileNotFoundError))
   \<and> (stat st (safe_path p) = Inr n
        \<and> (\<forall>es. n = Dir es \<longrightarrow> normal_last (safe_path p) \<and> node_depth n \<le> levels) \<longrightarrow>
      (\<exists>loc st'. namei st (safe_path p) = Inr loc
         \<and> fs_delete levels p st = (Inr ([], 204), st') \<and> cwd st' = cwd st
         \<and> (\<forall>r. lookup (fs_root st') (loc @ r) = None)
         \<and> (\<forall>q. \<not> prefix loc q \<and> \<not> prefix q loc \<longrightarrow>
               lookup (fs_root st') q = lookup (fs_root st) q)))"
proof -
  let ?t = "safe_path p"
  have a: "fs_delete levels p st = (Inl e, st)
      \<and> (e = FileNotFoundError \<or> e = NotADirectoryError \<or> e = ValueError)
      \<and> (\<forall>loc. namei st ?t = Inr loc \<longrightarrow> e = FileNotFoundError)"
    if s: "stat st ?t = Inl e"
  proof -
    from s have nd: "\<not> isdir st ?t"
      by (simp add: isdir_def)
    show ?thesis
    proof (cases "namei st ?t")
      case (Inl e')
      with s have "e' = e"
        by (simp add: stat_def)
      with Inl nd namei_error [of st ?t e] show ?thesis
        by (simp add: fs_delete_def and_then_def remove_def)
    next
      case (Inr loc)
      with s have "lookup (fs_root st) loc = None" "e = FileNotFoundError"
        by (auto simp: stat_def split: option.splits)
      with Inr nd show ?thesis
        by (simp add: fs_delete_def and_then_def remove_def)
    qed
  qed
  have b: "\<exists>loc st'. namei st ?t = Inr loc
         \<and> fs_delete levels p st = (Inr ([], 204), st') \<and> cwd st' = cwd st
         \<and> (\<forall>r. lookup (fs_root st') (loc @ r) = None)
         \<and> (\<forall>q. \<not> prefix loc q \<and> \<not> prefix q loc \<longrightarrow>
               lookup (fs_root st') q = lookup (fs_root st) q)"
    if s: "stat st ?t = Inr n"
      and d: "\<forall>es. n = Dir es \<longrightarrow> normal_last ?t \<and> node_depth n \<le> levels"
  proof -
    from s obtain loc where loc: "namei st ?t = Inr loc" and l: "lookup (fs_root st) loc = Some n"
      by (auto simp: stat_def split: sum.splits option.splits)
    define st' where "st' = st\<lparr>fs_root := del (fs_root st) loc\<rparr>"
    have ne: "loc \<noteq> []"
    proof (cases n)
      case (File c)
      with l have "\<not> isdir_at (fs_root st) loc"
        by (simp add: isdir_at_iff)
      with namei_parent [OF loc] show ?thesis
        by simp
    next
      case (Dir es)
      with d namei_normal_last [OF loc] show ?thesis
        by simp
    qed
    have f: "fs_delete levels p st = (Inr ([], 204), st')"
    proof (cases n)
      case (File c)
      with s have "\<not> isdir st ?t"
        by (simp add: isdir_def)
      with loc l File show ?thesis
        by (simp add: fs_delete_def and_then_def remove_def return_ok_def st'_def)
    next
      case (Dir es)
      with s have i: "isdir st ?t"
        by (simp add: isdir_def)
      from d Dir have nl: "normal_last ?t" and lv: "levels \<noteq> 0"
        and "node_depth (Dir es) \<le> Suc (levels - 1)"
        by auto
      then have "fst (remove_entries (levels - 1) es)"
        by (simp only: node_depth_Dir remove_entries_all)
      then obtain es' where "remove_entries (levels - 1) es = (True, es')"
        by (cases "remove_entries (levels - 1) es") auto
      with i loc l Dir nl lv show ?thesis
        by (simp add: fs_delete_def and_then_def rmtree_def return_ok_def st'_def)
    qed
    moreover have "cwd st' = cwd st"
      by (simp add: st'_def)
    moreover have "lookup (fs_root st') (loc @ r) = None" for r
      using lookup_del_below [OF ne] by (simp add: st'_def)
    moreover have "lookup (fs_root st') q = lookup (fs_root st) q"
      if "\<not> prefix loc q \<and> \<not> prefix q loc" for q
      using that by (simp add: st'_def lookup_del_frame)
    ultimately show ?thesis
      using loc by blast
  qed
  from a b show ?thesis
    by blast
qed

theorem fs_delete_removes_witness:
  "stat (snd (fs_write ''0/a/b.txt'' ''hello'' fresh_store)) (safe_path ''0/a'')
      = Inr (Dir [(''b.txt'', File ''hello'')])
   \<and> normal_last (safe_path ''0/a'')
   \<and> node_depth (Dir [(''b.txt'', File ''hello'')]) \<le> 400
   \<and> fst (fs_delete 400 ''0/a'' (snd (fs_write ''0/a/b.txt'' ''hello'' fresh_store))) = Inr ([], 204)
   \<and> stat (snd (fs_delete 400 ''0/a'' (snd (fs_write ''0/a/b.txt'' ''hello'' fresh_store))))
        (safe_path ''0/a/b.txt'') = Inl FileNotFoundError
   \<and> stat fresh_store (safe_path ''0/nope'') = Inl FileNotFoundError
   \<and> fs_delete 400 ''0/nope'' fresh_store = (Inl FileNotFoundError, fresh_store)"
proof -
  let ?S = "snd (fs_write ''0/a/b.txt'' ''hello'' fresh_store)"
  have s: "stat ?S (safe_path ''0/a'') = Inr (Dir [(''b.txt'', File ''hello'')])"
    by code_simp
  have n: "normal_last (safe_path ''0/a'')"
    "node_depth (Dir [(''b.txt'', File ''hello'')]) \<le> 400"
    by code_simp+
  have r: "stat (snd (fs_delete 400 ''0/a'' ?S)) (safe_path ''0/a/b.txt'') = Inl FileNotFoundError"
    by code_simp
  have e: "stat fresh_store (safe_path ''0/nope'') = Inl FileNotFoundError"
    by code_simp
  from fs_delete_removes [of ?S "''0/a''" _ 400 "Dir [(''b.txt'', File ''hello'')]"] s n
  obtain st' where "fs_delete 400 ''0/a'' ?S = (Inr ([], 204), st')"
    by auto
  then have "fst (fs_delete 400 ''0/a'' ?S) = Inr ([], 204)"
    by simp
  moreover from fs_delete_removes [of fresh_store "''0/nope''" FileNotFoundError 400] e
  have "fs_delete 400 ''0/nope'' fresh_store = (Inl FileNotFoundError, fresh_store)"
    by blast
  ultimately show ?thesis
    using s n r e by blast
qed

section \<open>Renaming\<close>




end
